theory Spec2Isabelle
  imports Main
begin

section \<open>Conway's Game of Life on a double-buffered grid (LifeGame.py)\<close>

text \<open>
  The class \<open>LifeGame\<close> keeps two grids (lists of rows of Python ints) in the list
  \<open>self.grids\<close>, the index \<open>self.active_grid\<close> of the grid on display, the grid
  dimensions and two flags. The model is a record of these fields, every method is a
  function that takes the object and returns the updated one, and an uncaught Python
  exception is the left summand of the result. The pygame window, the drawing calls and
  the clock are outside the model; \<open>draw_grid\<close> is kept as the read of the active grid
  it performs.
\<close>

subsection \<open>Python lists\<close>

datatype error = IndexError | SystemExit

text \<open>
  Subscripting a Python list of length \<open>n\<close> with \<open>i\<close>: \<open>0 \<le> i < n\<close> selects position
  \<open>i\<close>, \<open>-n \<le> i < 0\<close> selects position \<open>n + i\<close> (counting from the end), and every
  other index raises IndexError.
\<close>

definition py_norm :: "nat \<Rightarrow> int \<Rightarrow> nat option" where
  "py_norm n i =
     (if 0 \<le> i \<and> i < int n then Some (nat i)
      else if - int n \<le> i \<and> i < 0 then Some (nat (int n + i))
      else None)"

definition py_get :: "'a list \<Rightarrow> int \<Rightarrow> error + 'a" where
  "py_get xs i = (case py_norm (length xs) i of None \<Rightarrow> Inl IndexError | Some j \<Rightarrow> Inr (xs ! j))"

definition py_set :: "'a list \<Rightarrow> int \<Rightarrow> 'a \<Rightarrow> error + 'a list" where
  "py_set xs i v = (case py_norm (length xs) i of None \<Rightarrow> Inl IndexError | Some j \<Rightarrow> Inr (xs[j := v]))"

text \<open>\<open>range(n)\<close> is the list \<open>0, ..., n - 1\<close>, empty when \<open>n \<le> 0\<close>.\<close>

definition py_range :: "int \<Rightarrow> int list" where
  "py_range n = [0..n - 1]"

subsection \<open>The object\<close>

type_synonym grid = "int list list"

text \<open>
  The field \<open>rng\<close> is the state of the module \<open>random\<close>: the outcomes of the calls of
  \<open>random.randint(0, 1)\<close> still to come, \<open>True\<close> for 1.
\<close>

record game =
  active_grid :: int
  num_cols :: int
  num_rows :: int
  grids :: "grid list"
  paused :: bool
  game_over :: bool
  rng :: "nat \<Rightarrow> bool"

definition randint01 :: "game \<Rightarrow> int \<times> game" where
  "randint01 s = (if rng s 0 then 1 else 0, s\<lparr>rng := (\<lambda>k. rng s (Suc k))\<rparr>)"

subsection \<open>init_grids\<close>

definition create_grid :: "game \<Rightarrow> grid" where
  "create_grid s = map (\<lambda>row_num. replicate (nat (num_cols s)) 0) (py_range (num_rows s))"

definition init_grids :: "game \<Rightarrow> game" where
  "init_grids s = s\<lparr>grids := (grids s @ [create_grid s]) @ [create_grid s]\<rparr>"

subsection \<open>set_grid\<close>

text \<open>The assignment \<open>self.grids[grid][r][c] = cell_value\<close>.\<close>

definition store_cell :: "int \<Rightarrow> int \<Rightarrow> int \<Rightarrow> int \<Rightarrow> game \<Rightarrow> error + game" where
  "store_cell grid r c cell_value s =
     (case py_get (grids s) grid of Inl e \<Rightarrow> Inl e
      | Inr g \<Rightarrow>
     (case py_get g r of Inl e \<Rightarrow> Inl e
      | Inr row \<Rightarrow>
     (case py_set row c cell_value of Inl e \<Rightarrow> Inl e
      | Inr row' \<Rightarrow>
     (case py_set g r row' of Inl e \<Rightarrow> Inl e
      | Inr g' \<Rightarrow>
     (case py_set (grids s) grid g' of Inl e \<Rightarrow> Inl e
      | Inr gs' \<Rightarrow> Inr (s\<lparr>grids := gs'\<rparr>))))))"

text \<open>The inner loop of \<open>set_grid\<close> over the columns \<open>cs\<close> of row \<open>r\<close>.\<close>

fun set_grid_row :: "int option \<Rightarrow> int \<Rightarrow> int \<Rightarrow> int list \<Rightarrow> game \<Rightarrow> error + game" where
  "set_grid_row val grid r [] s = Inr s"
| "set_grid_row val grid r (c # cs) s =
     (case (case val of None \<Rightarrow> randint01 s | Some v \<Rightarrow> (v, s)) of
        (cell_value, s1) \<Rightarrow>
          (case store_cell grid r c cell_value s1 of
             Inl e \<Rightarrow> Inl e
           | Inr s2 \<Rightarrow> set_grid_row val grid r cs s2))"

text \<open>The outer loop of \<open>set_grid\<close> over the rows \<open>rs\<close>.\<close>

fun set_grid_rows :: "int option \<Rightarrow> int \<Rightarrow> int list \<Rightarrow> game \<Rightarrow> error + game" where
  "set_grid_rows val grid [] s = Inr s"
| "set_grid_rows val grid (r # rs) s =
     (case set_grid_row val grid r (py_range (num_cols s)) s of
        Inl e \<Rightarrow> Inl e
      | Inr s1 \<Rightarrow> set_grid_rows val grid rs s1)"

text \<open>\<open>set_grid(value, grid)\<close>; \<open>value=None\<close> asks for random cells.\<close>

definition set_grid :: "int option \<Rightarrow> int \<Rightarrow> game \<Rightarrow> error + game" where
  "set_grid val grid s = set_grid_rows val grid (py_range (num_rows s)) s"

subsection \<open>draw_grid\<close>

text \<open>The subscription \<open>self.grids[self.active_grid][r][c]\<close> outside a \<open>try\<close>.\<close>

definition active_cell :: "game \<Rightarrow> int \<Rightarrow> int \<Rightarrow> error + int" where
  "active_cell s r c =
     (case py_get (grids s) (active_grid s) of Inl e \<Rightarrow> Inl e
      | Inr g \<Rightarrow>
     (case py_get g r of Inl e \<Rightarrow> Inl e
      | Inr row \<Rightarrow> py_get row c))"

text \<open>
  \<open>draw_grid\<close> visits the cells column by column and draws a circle in the alive colour
  where the active grid holds 1. The model returns the sequence of colour choices
  (\<open>True\<close> for the alive colour) or the exception of a failed read.
\<close>

fun draw_cells :: "game \<Rightarrow> (int \<times> int) list \<Rightarrow> error + bool list" where
  "draw_cells s [] = Inr []"
| "draw_cells s ((c, r) # ps) =
     (case active_cell s r c of
        Inl e \<Rightarrow> Inl e
      | Inr v \<Rightarrow> (case draw_cells s ps of Inl e \<Rightarrow> Inl e | Inr fs \<Rightarrow> Inr ((v = 1) # fs)))"

definition draw_grid :: "game \<Rightarrow> error + bool list" where
  "draw_grid s = draw_cells s (List.product (py_range (num_cols s)) (py_range (num_rows s)))"

subsection \<open>get_cell and check_cell_neighbors\<close>

text \<open>\<open>get_cell\<close>: the same subscription inside \<open>try\<close>, with \<open>except: cell_value = 0\<close>.\<close>

definition get_cell :: "game \<Rightarrow> int \<Rightarrow> int \<Rightarrow> int" where
  "get_cell s row_num col_num =
     (case py_get (grids s) (active_grid s) of Inl e \<Rightarrow> 0
      | Inr g \<Rightarrow>
     (case py_get g row_num of Inl e \<Rightarrow> 0
      | Inr row \<Rightarrow>
     (case py_get row col_num of Inl e \<Rightarrow> 0
      | Inr cell_value \<Rightarrow> cell_value)))"

text \<open>The local \<open>num_alive_neighbors\<close> of \<open>check_cell_neighbors\<close>, in the order of its arguments.\<close>

definition num_alive_neighbors :: "game \<Rightarrow> int \<Rightarrow> int \<Rightarrow> int" where
  "num_alive_neighbors s row_index col_index =
     get_cell s (row_index - 1) (col_index - 1)
     + get_cell s (row_index - 1) col_index
     + get_cell s (row_index - 1) (col_index + 1)
     + get_cell s row_index (col_index - 1)
     + get_cell s row_index (col_index + 1)
     + get_cell s (row_index + 1) (col_index - 1)
     + get_cell s (row_index + 1) (col_index + 1)
     + get_cell s (row_index + 1) col_index"

definition check_cell_neighbors :: "game \<Rightarrow> int \<Rightarrow> int \<Rightarrow> error + int" where
  "check_cell_neighbors s row_index col_index =
     (let n = num_alive_neighbors s row_index col_index in
      case active_cell s row_index col_index of
        Inl e \<Rightarrow> Inl e
      | Inr cell \<Rightarrow>
          if cell = 1 then
            (if n > 3 then Inr 0
             else if n < 2 then Inr 0
             else if n = 2 \<or> n = 3 then Inr 1
             else Inr cell)
          else if cell = 0 then
            (if n = 3 then Inr 1 else Inr cell)
          else Inr cell)"

subsection \<open>update_generation\<close>

definition inactive_grid :: "game \<Rightarrow> int" where
  "inactive_grid s = (active_grid s + 1) mod 2"

fun update_row :: "int \<Rightarrow> int list \<Rightarrow> game \<Rightarrow> error + game" where
  "update_row r [] s = Inr s"
| "update_row r (c # cs) s =
     (case check_cell_neighbors s r c of
        Inl e \<Rightarrow> Inl e
      | Inr next_gen_state \<Rightarrow>
          (case store_cell (inactive_grid s) r c next_gen_state s of
             Inl e \<Rightarrow> Inl e
           | Inr s1 \<Rightarrow> update_row r cs s1))"

fun update_rows :: "int list \<Rightarrow> game \<Rightarrow> error + game" where
  "update_rows [] s = Inr s"
| "update_rows (r # rs) s =
     (case update_row r (py_range (num_cols s - 1)) s of
        Inl e \<Rightarrow> Inl e
      | Inr s1 \<Rightarrow> update_rows rs s1)"

definition update_generation :: "game \<Rightarrow> error + game" where
  "update_generation s =
     (case set_grid (Some 0) (inactive_grid s) s of
        Inl e \<Rightarrow> Inl e
      | Inr s1 \<Rightarrow>
          (case update_rows (py_range (num_rows s1 - 1)) s1 of
             Inl e \<Rightarrow> Inl e
           | Inr s2 \<Rightarrow> Inr (s2\<lparr>active_grid := inactive_grid s2\<rparr>)))"

subsection \<open>handle_events\<close>

text \<open>
  A pygame event as far as \<open>handle_events\<close> looks at it: a key press with its
  \<open>unicode\<close> text, the window-close event, or any other event.
\<close>

datatype event = KEYDOWN string | QUIT | OTHER

fun handle_event :: "event \<Rightarrow> game \<Rightarrow> error + game" where
  "handle_event (KEYDOWN u) s =
     (if u = ''s'' then
        (if paused s then Inr (s\<lparr>paused := False\<rparr>) else Inr (s\<lparr>paused := True\<rparr>))
      else if u = ''r'' then
        (let s0 = s\<lparr>active_grid := 0\<rparr> in
         case set_grid None (active_grid s0) s0 of
           Inl e \<Rightarrow> Inl e
         | Inr s1 \<Rightarrow>
             (case set_grid (Some 0) (inactive_grid s1) s1 of
                Inl e \<Rightarrow> Inl e
              | Inr s2 \<Rightarrow>
                  (case draw_grid s2 of Inl e \<Rightarrow> Inl e | Inr frame \<Rightarrow> Inr s2)))
      else if u = ''q'' then Inr (s\<lparr>game_over := True\<rparr>)
      else Inr s)"
| "handle_event QUIT s = Inl SystemExit"
| "handle_event OTHER s = Inr s"

fun handle_events :: "event list \<Rightarrow> game \<Rightarrow> error + game" where
  "handle_events [] s = Inr s"
| "handle_events (ev # evs) s =
     (case handle_event ev s of Inl e \<Rightarrow> Inl e | Inr s1 \<Rightarrow> handle_events evs s1)"

subsection \<open>The constructor\<close>

text \<open>
  \<open>__init__\<close> without the window: the dimensions \<open>int(screen_height / cell_size)\<close> and
  \<open>int(screen_width / cell_size)\<close> are floating-point quotients and enter as the
  parameters \<open>n_rows\<close> and \<open>n_cols\<close>; \<open>rnd\<close> is the state of the random generator at
  the call. \<open>set_grid()\<close> has the defaults \<open>value=None, grid=0\<close>.
\<close>

definition LifeGame_init :: "(nat \<Rightarrow> bool) \<Rightarrow> int \<Rightarrow> int \<Rightarrow> error + game" where
  "LifeGame_init rnd n_rows n_cols =
     (let s0 = \<lparr>active_grid = 0, num_cols = n_cols, num_rows = n_rows, grids = [],
                paused = False, game_over = False, rng = rnd\<rparr>;
          s1 = init_grids s0
      in case set_grid None 0 s1 of
           Inl e \<Rightarrow> Inl e
         | Inr s2 \<Rightarrow> Inr (s2\<lparr>paused := False, game_over := False\<rparr>))"

section \<open>States of the program\<close>

subsection \<open>Well-formed and reachable states\<close>

text \<open>
  A grid is well formed for given dimensions when it has that many rows, each of that
  many cells, and every cell is 0 or 1. An object is well formed when its active index is
  0 or 1 and \<open>self.grids\<close> holds exactly two well-formed grids of its dimensions.
\<close>

definition wf_grid :: "int \<Rightarrow> int \<Rightarrow> grid \<Rightarrow> bool" where
  "wf_grid n_rows n_cols g \<longleftrightarrow>
     length g = nat n_rows \<and>
     (\<forall>row\<in>set g. length row = nat n_cols \<and> (\<forall>v\<in>set row. v = 0 \<or> v = 1))"

definition wf_game :: "game \<Rightarrow> bool" where
  "wf_game s \<longleftrightarrow>
     (active_grid s = 0 \<or> active_grid s = 1) \<and> length (grids s) = 2 \<and>
     (\<forall>g\<in>set (grids s). wf_grid (num_rows s) (num_cols s) g)"

text \<open>
  The states an object constructed with \<open>n_rows\<close> by \<open>n_cols\<close> cells can be in after any
  sequence of completed calls of \<open>set_grid\<close> (to 0, to 1 or to random cells, on any grid
  index the call accepts), \<open>update_generation\<close> and \<open>handle_events\<close> (on any list of
  events, with any outcomes of the random generator).
\<close>

inductive reachable :: "int \<Rightarrow> int \<Rightarrow> game \<Rightarrow> bool" where
  construct: "LifeGame_init rnd n_rows n_cols = Inr s \<Longrightarrow> reachable n_rows n_cols s"
| fill: "reachable n_rows n_cols s \<Longrightarrow> val = None \<or> val = Some 0 \<or> val = Some 1 \<Longrightarrow>
         set_grid val g s = Inr s' \<Longrightarrow> reachable n_rows n_cols s'"
| advance: "reachable n_rows n_cols s \<Longrightarrow> update_generation s = Inr s' \<Longrightarrow>
         reachable n_rows n_cols s'"
| events: "reachable n_rows n_cols s \<Longrightarrow> handle_events evs s = Inr s' \<Longrightarrow>
         reachable n_rows n_cols s'"

text \<open>
  \<open>modifies g s s'\<close>: the state \<open>s'\<close> differs from \<open>s\<close> at most in grid \<open>g\<close> and in the
  random generator. It is the frame condition carried through the loops.
\<close>

definition modifies :: "int \<Rightarrow> game \<Rightarrow> game \<Rightarrow> bool" where
  "modifies g s s' \<longleftrightarrow>
     s' = s\<lparr>grids := grids s', rng := rng s'\<rparr> \<and>
     (\<forall>k. k \<noteq> nat g \<longrightarrow> grids s' ! k = grids s ! k)"

subsection \<open>Patterns on the active grid\<close>

text \<open>
  \<open>displays s live\<close>: read through \<open>get_cell\<close>, the active grid holds 1 exactly at the
  positions listed in \<open>live\<close> and 0 at every other position of the grid.
\<close>

definition displays :: "game \<Rightarrow> (int \<times> int) list \<Rightarrow> bool" where
  "displays s live \<longleftrightarrow>
     (\<forall>r\<in>set (py_range (num_rows s)). \<forall>c\<in>set (py_range (num_cols s)).
        get_cell s r c = (if (r, c) \<in> set live then 1 else 0))"

text \<open>The two phases of the blinker with centre \<open>(r, c)\<close>.\<close>

definition blinker_v :: "int \<Rightarrow> int \<Rightarrow> (int \<times> int) list" where
  "blinker_v r c = [(r - 1, c), (r, c), (r + 1, c)]"

definition blinker_h :: "int \<Rightarrow> int \<Rightarrow> (int \<times> int) list" where
  "blinker_h r c = [(r, c - 1), (r, c), (r, c + 1)]"

subsection \<open>The neighbour count as the specification words it\<close>

text \<open>
  The specification's \<open>get\<close> returns dead for every position outside
  \<open>[0, num_rows) \<times> [0, num_cols)\<close> and the cell of the active grid inside it; its
  \<open>count_live_neighbors\<close> sums \<open>get\<close> over the eight neighbours.
\<close>

definition spec_get :: "game \<Rightarrow> int \<Rightarrow> int \<Rightarrow> int" where
  "spec_get s row col =
     (if 0 \<le> row \<and> row < num_rows s \<and> 0 \<le> col \<and> col < num_cols s
      then get_cell s row col else 0)"

definition spec_count_live_neighbors :: "game \<Rightarrow> int \<Rightarrow> int \<Rightarrow> int" where
  "spec_count_live_neighbors s row col =
     spec_get s (row - 1) (col - 1) + spec_get s (row - 1) col + spec_get s (row - 1) (col + 1)
     + spec_get s row (col - 1) + spec_get s row (col + 1)
     + spec_get s (row + 1) (col - 1) + spec_get s (row + 1) col + spec_get s (row + 1) (col + 1)"

subsection \<open>Example states\<close>

text \<open>A 2 by 2 game as constructed when every random draw is 1.\<close>

definition ex_all_alive :: game where
  "ex_all_alive = \<lparr>active_grid = 0, num_cols = 2, num_rows = 2,
      grids = [[[1, 1], [1, 1]], [[0, 0], [0, 0]]],
      paused = False, game_over = False, rng = (\<lambda>k. True)\<rparr>"

text \<open>A 2 by 3 game whose active grid, grid 1, is all dead while grid 0 is not.\<close>

definition ex_empty :: game where
  "ex_empty = \<lparr>active_grid = 1, num_cols = 3, num_rows = 2,
      grids = [[[1, 0, 1], [0, 1, 1]], [[0, 0, 0], [0, 0, 0]]],
      paused = False, game_over = False, rng = (\<lambda>k. False)\<rparr>"

text \<open>A 3 by 3 game with one live cell in the middle.\<close>

definition ex_lone :: game where
  "ex_lone = \<lparr>active_grid = 0, num_cols = 3, num_rows = 3,
      grids = [[[0, 0, 0], [0, 1, 0], [0, 0, 0]], [[0, 0, 0], [0, 0, 0], [0, 0, 0]]],
      paused = False, game_over = False, rng = (\<lambda>k. False)\<rparr>"

text \<open>A 4 by 4 game with a vertical blinker centred at \<open>(1, 1)\<close>.\<close>

definition ex_blinker :: game where
  "ex_blinker = \<lparr>active_grid = 0, num_cols = 4, num_rows = 4,
      grids = [[[0, 1, 0, 0], [0, 1, 0, 0], [0, 1, 0, 0], [0, 0, 0, 0]],
               [[0, 0, 0, 0], [0, 0, 0, 0], [0, 0, 0, 0], [0, 0, 0, 0]]],
      paused = False, game_over = False, rng = (\<lambda>k. False)\<rparr>"

text \<open>A 3 by 3 game as the constructor leaves it when the draws 1, 2, 3, 4 and 8 (counted from 0) are
  1: the dead cell at \<open>(0, 0)\<close> has exactly three live neighbours in the grid.\<close>

definition ex_born :: game where
  "ex_born = \<lparr>active_grid = 0, num_cols = 3, num_rows = 3,
      grids = [[[0, 1, 1], [1, 1, 0], [0, 0, 1]], [[0, 0, 0], [0, 0, 0], [0, 0, 0]]],
      paused = False, game_over = False, rng = (\<lambda>k. False)\<rparr>"

text \<open>A 2 by 2 game as constructed with every cell alive, whose next four random draws are
  0, 1, 1, 0.\<close>

definition ex_fresh :: game where
  "ex_fresh = \<lparr>active_grid = 0, num_cols = 2, num_rows = 2,
      grids = [[[1, 1], [1, 1]], [[0, 0], [0, 0]]],
      paused = False, game_over = False, rng = (\<lambda>k. k = 1 \<or> k = 2)\<rparr>"

section \<open>Auxiliary lemmas\<close>

subsection \<open>Python subscripts\<close>

lemma py_norm_Some: "py_norm n i = Some j \<Longrightarrow> j < n"
  by (auto simp: py_norm_def split: if_splits)

lemma py_norm_in: "0 \<le> i \<Longrightarrow> i < int n \<Longrightarrow> py_norm n i = Some (nat i)"
  by (simp add: py_norm_def)

lemma py_get_mem: "py_get xs i = Inr x \<Longrightarrow> x \<in> set xs"
  by (auto simp: py_get_def split: option.splits dest: py_norm_Some)

lemma py_set_length: "py_set xs i v = Inr ys \<Longrightarrow> length ys = length xs"
  by (auto simp: py_set_def split: option.splits)

lemma py_set_mem: "py_set xs i v = Inr ys \<Longrightarrow> y \<in> set ys \<Longrightarrow> y = v \<or> y \<in> set xs"
  using set_update_subset_insert[of xs _ v]
  by (auto simp: py_set_def split: option.splits)

lemma py_get_in: "0 \<le> i \<Longrightarrow> i < int (length xs) \<Longrightarrow> py_get xs i = Inr (xs ! nat i)"
  by (simp add: py_get_def py_norm_in)

lemma py_set_in: "0 \<le> i \<Longrightarrow> i < int (length xs) \<Longrightarrow> py_set xs i v = Inr (xs[nat i := v])"
  by (simp add: py_set_def py_norm_in)

subsection \<open>Every operation preserves well-formedness\<close>

text \<open>
  Partial correctness: whenever an operation returns, on any arguments, the result is well
  formed and has the dimensions of the state it started from.
\<close>

lemma store_cell_wf:
  assumes "wf_game s" "v = 0 \<or> v = 1" "store_cell g r c v s = Inr s'"
  shows "wf_game s'"
proof -
  from assms(3) obtain gr row row' gr' gs' where
    1: "py_get (grids s) g = Inr gr" and 2: "py_get gr r = Inr row"
    and 3: "py_set row c v = Inr row'" and 4: "py_set gr r row' = Inr gr'"
    and 5: "py_set (grids s) g gr' = Inr gs'" and 6: "s' = s\<lparr>grids := gs'\<rparr>"
    by (auto simp: store_cell_def split: sum.splits)
  have gr: "wf_grid (num_rows s) (num_cols s) gr"
    using py_get_mem[OF 1] assms(1) by (simp add: wf_game_def)
  have row: "row \<in> set gr" using 2 by (rule py_get_mem)
  have row': "length row' = nat (num_cols s) \<and> (\<forall>v\<in>set row'. v = 0 \<or> v = 1)"
    using assms(2) gr row py_set_length[OF 3] py_set_mem[OF 3]
    unfolding wf_grid_def by metis
  have gr': "wf_grid (num_rows s) (num_cols s) gr'"
    using gr row' py_set_length[OF 4] py_set_mem[OF 4]
    unfolding wf_grid_def by metis
  have "length gs' = 2" using py_set_length[OF 5] assms(1) by (simp add: wf_game_def)
  moreover have "\<forall>g\<in>set gs'. wf_grid (num_rows s) (num_cols s) g"
    using assms(1) gr' py_set_mem[OF 5] unfolding wf_game_def by metis
  ultimately show ?thesis using assms(1) 6 by (simp add: wf_game_def)
qed

lemma store_cell_dims:
  "store_cell g r c v s = Inr s' \<Longrightarrow> num_rows s' = num_rows s \<and> num_cols s' = num_cols s"
  by (auto simp: store_cell_def split: sum.splits)

lemma randint01_wf:
  "wf_game s \<Longrightarrow> randint01 s = (v, s1) \<Longrightarrow>
   wf_game s1 \<and> (v = 0 \<or> v = 1) \<and> num_rows s1 = num_rows s \<and> num_cols s1 = num_cols s"
  by (auto simp: randint01_def wf_game_def)

lemma set_grid_row_wf:
  "wf_game s \<Longrightarrow> val = None \<or> val = Some 0 \<or> val = Some 1 \<Longrightarrow>
   set_grid_row val g r cs s = Inr s' \<Longrightarrow>
   wf_game s' \<and> num_rows s' = num_rows s \<and> num_cols s' = num_cols s"
proof (induction cs arbitrary: s)
  case Nil
  then show ?case by simp
next
  case (Cons c cs)
  obtain v s1 where d: "(case val of None \<Rightarrow> randint01 s | Some v \<Rightarrow> (v, s)) = (v, s1)"
    by (cases "case val of None \<Rightarrow> randint01 s | Some v \<Rightarrow> (v, s)")
  with Cons.prems(1,2) have w1: "wf_game s1" and v: "v = 0 \<or> v = 1"
    and d1: "num_rows s1 = num_rows s \<and> num_cols s1 = num_cols s"
    by (auto split: option.splits dest: randint01_wf)
  from Cons.prems(3) d obtain s2 where
    st: "store_cell g r c v s1 = Inr s2" and rest: "set_grid_row val g r cs s2 = Inr s'"
    by (auto split: sum.splits)
  have "wf_game s2" using w1 v st by (rule store_cell_wf)
  from Cons.IH[OF this Cons.prems(2) rest] store_cell_dims[OF st] d1
  show ?case by simp
qed

lemma set_grid_rows_wf:
  "wf_game s \<Longrightarrow> val = None \<or> val = Some 0 \<or> val = Some 1 \<Longrightarrow>
   set_grid_rows val g rs s = Inr s' \<Longrightarrow>
   wf_game s' \<and> num_rows s' = num_rows s \<and> num_cols s' = num_cols s"
proof (induction rs arbitrary: s)
  case Nil
  then show ?case by simp
next
  case (Cons r rs)
  from Cons.prems(3) obtain s1 where
    a: "set_grid_row val g r (py_range (num_cols s)) s = Inr s1"
    and b: "set_grid_rows val g rs s1 = Inr s'"
    by (auto split: sum.splits)
  note h = set_grid_row_wf[OF Cons.prems(1,2) a]
  from Cons.IH[OF _ Cons.prems(2) b] h show ?case by simp
qed

lemma set_grid_wf:
  "wf_game s \<Longrightarrow> val = None \<or> val = Some 0 \<or> val = Some 1 \<Longrightarrow>
   set_grid val g s = Inr s' \<Longrightarrow>
   wf_game s' \<and> num_rows s' = num_rows s \<and> num_cols s' = num_cols s"
  unfolding set_grid_def by (rule set_grid_rows_wf)

lemma active_cell_binary:
  assumes "wf_game s" "active_cell s r c = Inr v"
  shows "v = 0 \<or> v = 1"
proof -
  from assms(2) obtain g row where
    "py_get (grids s) (active_grid s) = Inr g" "py_get g r = Inr row" "py_get row c = Inr v"
    by (auto simp: active_cell_def split: sum.splits)
  then have "g \<in> set (grids s)" "row \<in> set g" "v \<in> set row"
    by (auto dest: py_get_mem)
  with assms(1) show ?thesis unfolding wf_game_def wf_grid_def by blast
qed

lemma check_cell_neighbors_binary:
  "wf_game s \<Longrightarrow> check_cell_neighbors s r c = Inr v \<Longrightarrow> v = 0 \<or> v = 1"
  by (auto simp: check_cell_neighbors_def Let_def split: sum.splits if_splits
           dest: active_cell_binary)

lemma update_row_wf:
  "wf_game s \<Longrightarrow> update_row r cs s = Inr s' \<Longrightarrow>
   wf_game s' \<and> num_rows s' = num_rows s \<and> num_cols s' = num_cols s"
proof (induction cs arbitrary: s)
  case Nil
  then show ?case by simp
next
  case (Cons c cs)
  from Cons.prems(2) obtain v s1 where
    a: "check_cell_neighbors s r c = Inr v"
    and b: "store_cell (inactive_grid s) r c v s = Inr s1"
    and d: "update_row r cs s1 = Inr s'"
    by (auto split: sum.splits)
  have "wf_game s1"
    using store_cell_wf[OF Cons.prems(1) check_cell_neighbors_binary[OF Cons.prems(1) a] b] .
  from Cons.IH[OF this d] store_cell_dims[OF b] show ?case by simp
qed

lemma update_rows_wf:
  "wf_game s \<Longrightarrow> update_rows rs s = Inr s' \<Longrightarrow>
   wf_game s' \<and> num_rows s' = num_rows s \<and> num_cols s' = num_cols s"
proof (induction rs arbitrary: s)
  case Nil
  then show ?case by simp
next
  case (Cons r rs)
  from Cons.prems(2) obtain s1 where
    a: "update_row r (py_range (num_cols s - 1)) s = Inr s1" and b: "update_rows rs s1 = Inr s'"
    by (auto split: sum.splits)
  note h = update_row_wf[OF Cons.prems(1) a]
  from Cons.IH[OF _ b] h show ?case by simp
qed

lemma inactive_grid_binary: "inactive_grid s = 0 \<or> inactive_grid s = 1"
  unfolding inactive_grid_def by presburger

lemma update_generation_wf:
  assumes "wf_game s" "update_generation s = Inr s'"
  shows "wf_game s' \<and> num_rows s' = num_rows s \<and> num_cols s' = num_cols s"
proof -
  from assms(2) obtain s1 s2 where
    a: "set_grid (Some 0) (inactive_grid s) s = Inr s1"
    and b: "update_rows (py_range (num_rows s1 - 1)) s1 = Inr s2"
    and c: "s' = s2\<lparr>active_grid := inactive_grid s2\<rparr>"
    by (auto simp: update_generation_def split: sum.splits)
  have 1: "wf_game s1 \<and> num_rows s1 = num_rows s \<and> num_cols s1 = num_cols s"
    using set_grid_wf[OF assms(1) _ a] by simp
  then have 2: "wf_game s2 \<and> num_rows s2 = num_rows s1 \<and> num_cols s2 = num_cols s1"
    using update_rows_wf[OF _ b] by simp
  show ?thesis using 1 2 c inactive_grid_binary[of s2] by (auto simp: wf_game_def)
qed

lemma handle_event_wf:
  assumes w: "wf_game s" and h: "handle_event ev s = Inr s'"
  shows "wf_game s' \<and> num_rows s' = num_rows s \<and> num_cols s' = num_cols s"
proof (cases ev)
  case (KEYDOWN u)
  show ?thesis
  proof (cases "u = ''r''")
    case True
    have w0: "wf_game (s\<lparr>active_grid := 0\<rparr>)" using w by (simp add: wf_game_def)
    from h KEYDOWN True obtain s1 where
      a: "set_grid None 0 (s\<lparr>active_grid := 0\<rparr>) = Inr s1"
      and b: "set_grid (Some 0) (inactive_grid s1) s1 = Inr s'"
      by (auto simp: Let_def split: sum.splits)
    have 1: "wf_game s1 \<and> num_rows s1 = num_rows s \<and> num_cols s1 = num_cols s"
      using set_grid_wf[OF w0 _ a] by simp
    then show ?thesis using set_grid_wf[OF _ _ b] by simp
  next
    case False
    then show ?thesis using w h KEYDOWN by (auto simp: wf_game_def split: if_splits)
  qed
next
  case QUIT
  then show ?thesis using h by simp
next
  case OTHER
  then show ?thesis using w h by simp
qed

lemma handle_events_wf:
  "wf_game s \<Longrightarrow> handle_events evs s = Inr s' \<Longrightarrow>
   wf_game s' \<and> num_rows s' = num_rows s \<and> num_cols s' = num_cols s"
proof (induction evs arbitrary: s)
  case Nil
  then show ?case by simp
next
  case (Cons ev evs)
  from Cons.prems(2) obtain s1 where
    a: "handle_event ev s = Inr s1" and b: "handle_events evs s1 = Inr s'"
    by (auto split: sum.splits)
  note h = handle_event_wf[OF Cons.prems(1) a]
  from Cons.IH[OF _ b] h show ?case by simp
qed

lemma init_grids_wf:
  "wf_game (init_grids \<lparr>active_grid = 0, num_cols = nc, num_rows = nr, grids = [],
                paused = p, game_over = q, rng = rnd\<rparr>)"
  by (auto simp: wf_game_def wf_grid_def init_grids_def create_grid_def py_range_def)

lemma LifeGame_init_wf:
  assumes "LifeGame_init rnd nr nc = Inr s"
  shows "wf_game s \<and> num_rows s = nr \<and> num_cols s = nc"
proof -
  from assms obtain s2 where
    a: "set_grid None 0 (init_grids \<lparr>active_grid = 0, num_cols = nc, num_rows = nr, grids = [],
                paused = False, game_over = False, rng = rnd\<rparr>) = Inr s2"
    and b: "s = s2\<lparr>paused := False, game_over := False\<rparr>"
    by (auto simp: LifeGame_init_def Let_def split: sum.splits)
  have "wf_game s2 \<and> num_rows s2 = nr \<and> num_cols s2 = nc"
    using set_grid_wf[OF init_grids_wf _ a] by (simp add: init_grids_def)
  then show ?thesis using b by (auto simp: wf_game_def)
qed

subsection \<open>Reachable states are well formed\<close>

lemma reachable_wf:
  "reachable nr nc s \<Longrightarrow> wf_game s \<and> num_rows s = nr \<and> num_cols s = nc"
proof (induction rule: reachable.induct)
  case (construct rnd n_rows n_cols s)
  then show ?case by (rule LifeGame_init_wf)
next
  case (fill n_rows n_cols s val g s')
  then show ?case using set_grid_wf[of s val g s'] by simp
next
  case (advance n_rows n_cols s s')
  then show ?case using update_generation_wf[of s s'] by simp
next
  case (events n_rows n_cols s evs s')
  then show ?case using handle_events_wf[of s evs s'] by simp
qed

lemma ex_all_alive_init: "LifeGame_init (\<lambda>k. True) 2 2 = Inr ex_all_alive"
  by (simp add: LifeGame_init_def init_grids_def create_grid_def py_range_def set_grid_def
      store_cell_def py_get_def py_set_def py_norm_def randint01_def ex_all_alive_def Let_def
      upto.simps eval_nat_numeral)

subsection \<open>The effect of one cell assignment\<close>

lemma modifies_refl: "modifies g s s"
  by (simp add: modifies_def)

lemma modifies_trans: "modifies g s s1 \<Longrightarrow> modifies g s1 s2 \<Longrightarrow> modifies g s s2"
  unfolding modifies_def
  by (metis (no_types, lifting) game.surjective game.update_convs(4,7))

lemma modifies_fields:
  "modifies g s s' \<Longrightarrow>
   active_grid s' = active_grid s \<and> num_rows s' = num_rows s \<and> num_cols s' = num_cols s \<and>
   paused s' = paused s \<and> game_over s' = game_over s"
  unfolding modifies_def
  by (metis (no_types, lifting) game.select_convs(1,2,3,5,6) game.surjective game.update_convs(4,7))

lemma wf_grid_nth: "wf_game s \<Longrightarrow> k < 2 \<Longrightarrow> wf_grid (num_rows s) (num_cols s) (grids s ! k)"
  by (simp add: wf_game_def)

lemma wf_row_length:
  "wf_game s \<Longrightarrow> k < 2 \<Longrightarrow> i < nat (num_rows s) \<Longrightarrow> length (grids s ! k ! i) = nat (num_cols s)"
  using wf_grid_nth[of s k] by (simp add: wf_grid_def)

lemma wf_rows_length: "wf_game s \<Longrightarrow> k < 2 \<Longrightarrow> length (grids s ! k) = nat (num_rows s)"
  using wf_grid_nth[of s k] by (simp add: wf_grid_def)

lemma store_cell_exact:
  assumes "wf_game s" "g = 0 \<or> g = 1" "0 \<le> r" "r < num_rows s" "0 \<le> c" "c < num_cols s"
  shows "store_cell g r c v s =
     Inr (s\<lparr>grids := (grids s)[nat g := (grids s ! nat g)[nat r := (grids s ! nat g ! nat r)[nat c := v]]]\<rparr>)"
proof -
  have k: "nat g < 2" using assms(2) by auto
  have 1: "py_get (grids s) g = Inr (grids s ! nat g)"
    using assms(1,2) by (intro py_get_in) (auto simp: wf_game_def)
  have 2: "py_get (grids s ! nat g) r = Inr (grids s ! nat g ! nat r)"
    using assms(3,4) wf_rows_length[OF assms(1) k] by (intro py_get_in) auto
  have 3: "py_set (grids s ! nat g ! nat r) c v = Inr ((grids s ! nat g ! nat r)[nat c := v])"
    using assms(3,4,5,6) wf_row_length[OF assms(1) k, of "nat r"] by (intro py_set_in) auto
  have 4: "py_set (grids s ! nat g) r row' = Inr ((grids s ! nat g)[nat r := row'])" for row'
    using assms(3,4) wf_rows_length[OF assms(1) k] by (intro py_set_in) auto
  have 5: "py_set (grids s) g g' = Inr ((grids s)[nat g := g'])" for g'
    using assms(1,2) by (intro py_set_in) (auto simp: wf_game_def)
  show ?thesis by (simp add: store_cell_def 1 2 3 4 5)
qed

lemma store_cell_modifies:
  assumes "wf_game s" "g = 0 \<or> g = 1" "0 \<le> r" "r < num_rows s" "0 \<le> c" "c < num_cols s"
    and "store_cell g r c v s = Inr s'"
  shows "modifies g s s' \<and> rng s' = rng s"
  using assms(7) unfolding store_cell_exact[OF assms(1-6)] modifies_def by auto

lemma store_cell_cells:
  assumes "wf_game s" "g = 0 \<or> g = 1" "0 \<le> r" "r < num_rows s" "0 \<le> c" "c < num_cols s"
    and "store_cell g r c v s = Inr s'"
    and "i < nat (num_rows s)" "j < nat (num_cols s)"
  shows "grids s' ! nat g ! i ! j = (if i = nat r \<and> j = nat c then v else grids s ! nat g ! i ! j)"
proof -
  have k: "nat g < 2" using assms(2) by auto
  have l2: "nat g < length (grids s)" using assms(1) k by (simp add: wf_game_def)
  have lr: "length (grids s ! nat g) = nat (num_rows s)" by (rule wf_rows_length[OF assms(1) k])
  have lc: "length (grids s ! nat g ! nat r) = nat (num_cols s)"
    using assms(3,4) by (intro wf_row_length[OF assms(1) k]) auto
  have "grids s' = (grids s)[nat g := (grids s ! nat g)[nat r := (grids s ! nat g ! nat r)[nat c := v]]]"
    using assms(7) unfolding store_cell_exact[OF assms(1-6)] by auto
  then show ?thesis using l2 lr lc assms(8,9)
    by (cases "i = nat r") (auto simp: nth_list_update)
qed

subsection \<open>The loops of set_grid run to completion\<close>

text \<open>
  Total correctness on a well-formed state and a grid index 0 or 1: the loops raise nothing,
  touch only the chosen grid (and the random generator when the cells are random), and a
  literal ends up in every cell they visit.
\<close>

lemma set_grid_row_run:
  assumes "wf_game s" "g = 0 \<or> g = 1" "0 \<le> r" "r < num_rows s"
    and "\<forall>c\<in>set cs. 0 \<le> c \<and> c < num_cols s"
    and "val = None \<or> val = Some 0 \<or> val = Some 1"
  shows "\<exists>s'. set_grid_row val g r cs s = Inr s' \<and> wf_game s' \<and> modifies g s s' \<and>
           (val \<noteq> None \<longrightarrow> rng s' = rng s) \<and>
           (\<forall>v. val = Some v \<longrightarrow> (\<forall>i<nat (num_rows s). \<forall>j<nat (num_cols s).
               grids s' ! nat g ! i ! j =
                 (if i = nat r \<and> int j \<in> set cs then v else grids s ! nat g ! i ! j)))"
  using assms
proof (induction cs arbitrary: s)
  case Nil
  then show ?case by (simp add: modifies_refl)
next
  case (Cons c cs)
  obtain v s1 where d: "(case val of None \<Rightarrow> randint01 s | Some v \<Rightarrow> (v, s)) = (v, s1)"
    by (cases "case val of None \<Rightarrow> randint01 s | Some v \<Rightarrow> (v, s)")
  have w1: "wf_game s1" and v: "v = 0 \<or> v = 1"
    and d1: "num_rows s1 = num_rows s" "num_cols s1 = num_cols s"
    using d Cons.prems(1,6) by (auto split: option.splits dest: randint01_wf)
  have m1: "modifies g s s1" and g1: "grids s1 = grids s"
    and r1: "val \<noteq> None \<longrightarrow> s1 = s" and v1: "\<forall>u. val = Some u \<longrightarrow> v = u"
    using d by (auto simp: modifies_def randint01_def split: option.splits)
  have c: "0 \<le> c" "c < num_cols s1" using Cons.prems(5) d1 by auto
  have r: "0 \<le> r" "r < num_rows s1" using Cons.prems(3,4) d1 by auto
  define s2 where "s2 = s1\<lparr>grids := (grids s1)[nat g := (grids s1 ! nat g)
      [nat r := (grids s1 ! nat g ! nat r)[nat c := v]]]\<rparr>"
  have st: "store_cell g r c v s1 = Inr s2"
    unfolding s2_def by (rule store_cell_exact[OF w1 Cons.prems(2) r c])
  have w2: "wf_game s2" using w1 v st by (rule store_cell_wf)
  have m2: "modifies g s1 s2" and r2: "rng s2 = rng s1"
    using store_cell_modifies[OF w1 Cons.prems(2) r c st] by auto
  have d2: "num_rows s2 = num_rows s" "num_cols s2 = num_cols s"
    using d1 by (auto simp: s2_def)
  have cells2: "grids s2 ! nat g ! i ! j = (if i = nat r \<and> j = nat c then v else grids s ! nat g ! i ! j)"
    if "i < nat (num_rows s)" "j < nat (num_cols s)" for i j
    using store_cell_cells[OF w1 Cons.prems(2) r c st, of i j] that d1 g1 by simp
  have "\<exists>s'. set_grid_row val g r cs s2 = Inr s' \<and> wf_game s' \<and> modifies g s2 s' \<and>
           (val \<noteq> None \<longrightarrow> rng s' = rng s2) \<and>
           (\<forall>v. val = Some v \<longrightarrow> (\<forall>i<nat (num_rows s2). \<forall>j<nat (num_cols s2).
               grids s' ! nat g ! i ! j =
                 (if i = nat r \<and> int j \<in> set cs then v else grids s2 ! nat g ! i ! j)))"
    using Cons.prems(2,3,4,5,6) d2 by (intro Cons.IH[OF w2]) auto
  then obtain s' where run: "set_grid_row val g r cs s2 = Inr s'" and w': "wf_game s'"
    and m': "modifies g s2 s'" and r': "val \<noteq> None \<longrightarrow> rng s' = rng s2"
    and cells': "\<forall>v. val = Some v \<longrightarrow> (\<forall>i<nat (num_rows s2). \<forall>j<nat (num_cols s2).
               grids s' ! nat g ! i ! j =
                 (if i = nat r \<and> int j \<in> set cs then v else grids s2 ! nat g ! i ! j))"
    by blast
  have "set_grid_row val g r (c # cs) s = Inr s'"
    using d st run by simp
  moreover have "modifies g s s'"
    using m1 m2 m' by (blast intro: modifies_trans)
  moreover have "val \<noteq> None \<longrightarrow> rng s' = rng s"
    using r' r2 r1 by auto
  moreover have "\<forall>u. val = Some u \<longrightarrow> (\<forall>i<nat (num_rows s). \<forall>j<nat (num_cols s).
               grids s' ! nat g ! i ! j =
                 (if i = nat r \<and> int j \<in> set (c # cs) then u else grids s ! nat g ! i ! j))"
  proof (intro allI impI)
    fix u i j
    assume u: "val = Some u" and i: "i < nat (num_rows s)" and j: "j < nat (num_cols s)"
    have "int j = c \<longleftrightarrow> j = nat c" using c(1) by auto
    then show "grids s' ! nat g ! i ! j =
                 (if i = nat r \<and> int j \<in> set (c # cs) then u else grids s ! nat g ! i ! j)"
      using cells' u i j d2 cells2[OF i j] v1 by auto
  qed
  ultimately show ?case using w' by blast
qed

lemma set_grid_rows_run:
  assumes "wf_game s" "g = 0 \<or> g = 1"
    and "\<forall>r\<in>set rs. 0 \<le> r \<and> r < num_rows s"
    and "val = None \<or> val = Some 0 \<or> val = Some 1"
  shows "\<exists>s'. set_grid_rows val g rs s = Inr s' \<and> wf_game s' \<and> modifies g s s' \<and>
           (val \<noteq> None \<longrightarrow> rng s' = rng s) \<and>
           (\<forall>v. val = Some v \<longrightarrow> (\<forall>i<nat (num_rows s). \<forall>j<nat (num_cols s).
               grids s' ! nat g ! i ! j =
                 (if int i \<in> set rs then v else grids s ! nat g ! i ! j)))"
  using assms
proof (induction rs arbitrary: s)
  case Nil
  then show ?case by (simp add: modifies_refl)
next
  case (Cons r rs)
  have r: "0 \<le> r" "r < num_rows s" using Cons.prems(3) by auto
  have cols: "\<forall>c\<in>set (py_range (num_cols s)). 0 \<le> c \<and> c < num_cols s"
    by (auto simp: py_range_def)
  from set_grid_row_run[OF Cons.prems(1,2) r cols Cons.prems(4)]
  obtain s1 where run1: "set_grid_row val g r (py_range (num_cols s)) s = Inr s1"
    and w1: "wf_game s1" and m1: "modifies g s s1" and r1: "val \<noteq> None \<longrightarrow> rng s1 = rng s"
    and cells1: "\<forall>v. val = Some v \<longrightarrow> (\<forall>i<nat (num_rows s). \<forall>j<nat (num_cols s).
               grids s1 ! nat g ! i ! j =
                 (if i = nat r \<and> int j \<in> set (py_range (num_cols s)) then v
                  else grids s ! nat g ! i ! j))"
    by blast
  have d1: "num_rows s1 = num_rows s" "num_cols s1 = num_cols s"
    using modifies_fields[OF m1] by auto
  have "\<exists>s'. set_grid_rows val g rs s1 = Inr s' \<and> wf_game s' \<and> modifies g s1 s' \<and>
           (val \<noteq> None \<longrightarrow> rng s' = rng s1) \<and>
           (\<forall>v. val = Some v \<longrightarrow> (\<forall>i<nat (num_rows s1). \<forall>j<nat (num_cols s1).
               grids s' ! nat g ! i ! j =
                 (if int i \<in> set rs then v else grids s1 ! nat g ! i ! j)))"
    using Cons.prems(2,3,4) d1 by (intro Cons.IH[OF w1]) auto
  then obtain s' where run: "set_grid_rows val g rs s1 = Inr s'" and w': "wf_game s'"
    and m': "modifies g s1 s'" and r': "val \<noteq> None \<longrightarrow> rng s' = rng s1"
    and cells': "\<forall>v. val = Some v \<longrightarrow> (\<forall>i<nat (num_rows s1). \<forall>j<nat (num_cols s1).
               grids s' ! nat g ! i ! j =
                 (if int i \<in> set rs then v else grids s1 ! nat g ! i ! j))"
    by blast
  have "set_grid_rows val g (r # rs) s = Inr s'"
    using run1 run by simp
  moreover have "modifies g s s'"
    using m1 m' by (blast intro: modifies_trans)
  moreover have "val \<noteq> None \<longrightarrow> rng s' = rng s"
    using r' r1 by auto
  moreover have "\<forall>u. val = Some u \<longrightarrow> (\<forall>i<nat (num_rows s). \<forall>j<nat (num_cols s).
               grids s' ! nat g ! i ! j =
                 (if int i \<in> set (r # rs) then u else grids s ! nat g ! i ! j))"
  proof (intro allI impI)
    fix u i j
    assume u: "val = Some u" and i: "i < nat (num_rows s)" and j: "j < nat (num_cols s)"
    have "int i = r \<longleftrightarrow> i = nat r" using r(1) by auto
    moreover have "int j \<in> set (py_range (num_cols s))" using j by (auto simp: py_range_def)
    ultimately show "grids s' ! nat g ! i ! j =
                 (if int i \<in> set (r # rs) then u else grids s ! nat g ! i ! j)"
      using cells' cells1 u i j d1 by auto
  qed
  ultimately show ?case using w' by blast
qed

lemma set_grid_run:
  assumes "wf_game s" "g = 0 \<or> g = 1"
    and "val = None \<or> val = Some 0 \<or> val = Some 1"
  shows "\<exists>s'. set_grid val g s = Inr s' \<and> wf_game s' \<and> modifies g s s' \<and>
           (val \<noteq> None \<longrightarrow> rng s' = rng s) \<and>
           (\<forall>v. val = Some v \<longrightarrow> (\<forall>i<nat (num_rows s). \<forall>j<nat (num_cols s).
               grids s' ! nat g ! i ! j = v))"
proof -
  have rows: "\<forall>r\<in>set (py_range (num_rows s)). 0 \<le> r \<and> r < num_rows s"
    by (auto simp: py_range_def)
  from set_grid_rows_run[OF assms(1,2) rows assms(3)]
  obtain s' where run: "set_grid_rows val g (py_range (num_rows s)) s = Inr s'"
    and w': "wf_game s'" and m': "modifies g s s'" and r': "val \<noteq> None \<longrightarrow> rng s' = rng s"
    and cells': "\<forall>v. val = Some v \<longrightarrow> (\<forall>i<nat (num_rows s). \<forall>j<nat (num_cols s).
               grids s' ! nat g ! i ! j =
                 (if int i \<in> set (py_range (num_rows s)) then v else grids s ! nat g ! i ! j))"
    by blast
  have "int i \<in> set (py_range (num_rows s))" if "i < nat (num_rows s)" for i
    using that by (auto simp: py_range_def)
  then have "\<forall>v. val = Some v \<longrightarrow> (\<forall>i<nat (num_rows s). \<forall>j<nat (num_cols s).
               grids s' ! nat g ! i ! j = v)"
    using cells' by simp
  then show ?thesis using run w' m' r' unfolding set_grid_def by blast
qed

subsection \<open>The loops of update_generation run to completion\<close>

text \<open>
  The next state of a cell is computed from the active grid only, so the value the loop
  writes at a cell is the value \<open>check_cell_neighbors\<close> has on the state at entry.
\<close>

lemma active_buffer_read:
  "wf_game s \<Longrightarrow> py_get (grids s) (active_grid s) = Inr (grids s ! nat (active_grid s))"
  by (intro py_get_in) (auto simp: wf_game_def)

lemma check_cell_neighbors_cong:
  assumes "wf_game s" "wf_game s1" "active_grid s1 = active_grid s"
    and "grids s1 ! nat (active_grid s) = grids s ! nat (active_grid s)"
  shows "check_cell_neighbors s1 r c = check_cell_neighbors s r c"
proof -
  have "py_get (grids s1) (active_grid s1) = py_get (grids s) (active_grid s)"
    using active_buffer_read[OF assms(1)] active_buffer_read[OF assms(2)] assms(3,4) by simp
  then have "get_cell s1 x y = get_cell s x y" and "active_cell s1 x y = active_cell s x y" for x y
    by (simp_all add: get_cell_def active_cell_def)
  then show ?thesis
    by (simp add: check_cell_neighbors_def num_alive_neighbors_def)
qed

lemma active_cell_in:
  assumes "wf_game s" "0 \<le> r" "r < num_rows s" "0 \<le> c" "c < num_cols s"
  shows "active_cell s r c = Inr (grids s ! nat (active_grid s) ! nat r ! nat c)"
proof -
  have k: "nat (active_grid s) < 2" using assms(1) by (auto simp: wf_game_def)
  have 2: "py_get (grids s ! nat (active_grid s)) r = Inr (grids s ! nat (active_grid s) ! nat r)"
    using assms(2,3) wf_rows_length[OF assms(1) k] by (intro py_get_in) auto
  have 3: "py_get (grids s ! nat (active_grid s) ! nat r) c
      = Inr (grids s ! nat (active_grid s) ! nat r ! nat c)"
    using assms(2-5) wf_row_length[OF assms(1) k, of "nat r"] by (intro py_get_in) auto
  show ?thesis by (simp add: active_cell_def active_buffer_read[OF assms(1)] 2 3)
qed

lemma check_cell_neighbors_total:
  assumes "wf_game s" "0 \<le> r" "r < num_rows s" "0 \<le> c" "c < num_cols s"
  shows "\<exists>v. check_cell_neighbors s r c = Inr v"
  by (simp add: check_cell_neighbors_def Let_def active_cell_in[OF assms])

lemma inactive_neq_active: "wf_game s \<Longrightarrow> nat (active_grid s) \<noteq> nat (inactive_grid s)"
  by (auto simp: wf_game_def inactive_grid_def)

lemma update_row_run:
  assumes "wf_game s" "0 \<le> r" "r < num_rows s"
    and "\<forall>c\<in>set cs. 0 \<le> c \<and> c < num_cols s"
  shows "\<exists>s'. update_row r cs s = Inr s' \<and> wf_game s' \<and> modifies (inactive_grid s) s s' \<and>
           rng s' = rng s \<and>
           (\<forall>i<nat (num_rows s). \<forall>j<nat (num_cols s).
               (if i = nat r \<and> int j \<in> set cs
                then check_cell_neighbors s r (int j) = Inr (grids s' ! nat (inactive_grid s) ! i ! j)
                else grids s' ! nat (inactive_grid s) ! i ! j = grids s ! nat (inactive_grid s) ! i ! j))"
  using assms
proof (induction cs arbitrary: s)
  case Nil
  then show ?case by (simp add: modifies_refl)
next
  case (Cons c cs)
  let ?b = "inactive_grid s"
  have c: "0 \<le> c" "c < num_cols s" using Cons.prems(4) by auto
  have r: "0 \<le> r" "r < num_rows s" using Cons.prems(2,3) by auto
  have b: "?b = 0 \<or> ?b = 1" by (rule inactive_grid_binary)
  obtain v where chk: "check_cell_neighbors s r c = Inr v"
    using check_cell_neighbors_total[OF Cons.prems(1) r c] by blast
  have v: "v = 0 \<or> v = 1" using Cons.prems(1) chk by (rule check_cell_neighbors_binary)
  define s1 where "s1 = s\<lparr>grids := (grids s)[nat ?b := (grids s ! nat ?b)
      [nat r := (grids s ! nat ?b ! nat r)[nat c := v]]]\<rparr>"
  have st: "store_cell ?b r c v s = Inr s1"
    unfolding s1_def by (rule store_cell_exact[OF Cons.prems(1) b r c])
  have w1: "wf_game s1" using Cons.prems(1) v st by (rule store_cell_wf)
  have m1: "modifies ?b s s1" and r1: "rng s1 = rng s"
    using store_cell_modifies[OF Cons.prems(1) b r c st] by auto
  have f1: "active_grid s1 = active_grid s" "num_rows s1 = num_rows s" "num_cols s1 = num_cols s"
    by (auto simp: s1_def)
  have b1: "inactive_grid s1 = ?b" using f1 by (simp add: inactive_grid_def)
  have a1: "grids s1 ! nat (active_grid s) = grids s ! nat (active_grid s)"
    using m1 inactive_neq_active[OF Cons.prems(1)] by (simp add: modifies_def)
  have cong: "check_cell_neighbors s1 x y = check_cell_neighbors s x y" for x y
    using Cons.prems(1) w1 f1(1) a1 by (rule check_cell_neighbors_cong)
  have cells1: "grids s1 ! nat ?b ! i ! j = (if i = nat r \<and> j = nat c then v else grids s ! nat ?b ! i ! j)"
    if "i < nat (num_rows s)" "j < nat (num_cols s)" for i j
    using store_cell_cells[OF Cons.prems(1) b r c st, of i j] that by simp
  have "\<exists>s'. update_row r cs s1 = Inr s' \<and> wf_game s' \<and> modifies (inactive_grid s1) s1 s' \<and>
           rng s' = rng s1 \<and>
           (\<forall>i<nat (num_rows s1). \<forall>j<nat (num_cols s1).
               (if i = nat r \<and> int j \<in> set cs
                then check_cell_neighbors s1 r (int j) = Inr (grids s' ! nat (inactive_grid s1) ! i ! j)
                else grids s' ! nat (inactive_grid s1) ! i ! j = grids s1 ! nat (inactive_grid s1) ! i ! j))"
    using Cons.prems(2,3,4) f1 by (intro Cons.IH[OF w1]) auto
  then obtain s' where run: "update_row r cs s1 = Inr s'" and w': "wf_game s'"
    and m': "modifies ?b s1 s'" and r': "rng s' = rng s1"
    and cells': "\<forall>i<nat (num_rows s). \<forall>j<nat (num_cols s).
               (if i = nat r \<and> int j \<in> set cs
                then check_cell_neighbors s r (int j) = Inr (grids s' ! nat ?b ! i ! j)
                else grids s' ! nat ?b ! i ! j = grids s1 ! nat ?b ! i ! j)"
    unfolding b1 f1 cong by blast
  have "update_row r (c # cs) s = Inr s'"
    using chk st run by simp
  moreover have "modifies ?b s s'"
    using m1 m' by (blast intro: modifies_trans)
  moreover have "rng s' = rng s" using r' r1 by simp
  moreover have "\<forall>i<nat (num_rows s). \<forall>j<nat (num_cols s).
               (if i = nat r \<and> int j \<in> set (c # cs)
                then check_cell_neighbors s r (int j) = Inr (grids s' ! nat ?b ! i ! j)
                else grids s' ! nat ?b ! i ! j = grids s ! nat ?b ! i ! j)"
  proof (intro allI impI)
    fix i j
    assume i: "i < nat (num_rows s)" and j: "j < nat (num_cols s)"
    have e: "int j = c \<longleftrightarrow> j = nat c" using c(1) by auto
    from cells' i j have
      h: "if i = nat r \<and> int j \<in> set cs
          then check_cell_neighbors s r (int j) = Inr (grids s' ! nat ?b ! i ! j)
          else grids s' ! nat ?b ! i ! j = grids s1 ! nat ?b ! i ! j"
      by blast
    show "if i = nat r \<and> int j \<in> set (c # cs)
          then check_cell_neighbors s r (int j) = Inr (grids s' ! nat ?b ! i ! j)
          else grids s' ! nat ?b ! i ! j = grids s ! nat ?b ! i ! j"
    proof (cases "i = nat r \<and> int j \<in> set cs")
      case True
      then show ?thesis using h by simp
    next
      case False
      then have "grids s' ! nat ?b ! i ! j = grids s1 ! nat ?b ! i ! j" using h by simp
      then show ?thesis using False cells1[OF i j] e chk by auto
    qed
  qed
  ultimately show ?case using w' by blast
qed

lemma update_rows_run:
  assumes "wf_game s" "\<forall>r\<in>set rs. 0 \<le> r \<and> r < num_rows s"
  shows "\<exists>s'. update_rows rs s = Inr s' \<and> wf_game s' \<and> modifies (inactive_grid s) s s' \<and>
           rng s' = rng s \<and>
           (\<forall>i<nat (num_rows s). \<forall>j<nat (num_cols s).
               (if int i \<in> set rs \<and> int j < num_cols s - 1
                then check_cell_neighbors s (int i) (int j)
                       = Inr (grids s' ! nat (inactive_grid s) ! i ! j)
                else grids s' ! nat (inactive_grid s) ! i ! j = grids s ! nat (inactive_grid s) ! i ! j))"
  using assms
proof (induction rs arbitrary: s)
  case Nil
  then show ?case by (simp add: modifies_refl)
next
  case (Cons r rs)
  let ?b = "inactive_grid s"
  have r: "0 \<le> r" "r < num_rows s" using Cons.prems(2) by auto
  have cols: "\<forall>c\<in>set (py_range (num_cols s - 1)). 0 \<le> c \<and> c < num_cols s"
    by (auto simp: py_range_def)
  from update_row_run[OF Cons.prems(1) r cols]
  obtain s1 where run1: "update_row r (py_range (num_cols s - 1)) s = Inr s1"
    and w1: "wf_game s1" and m1: "modifies ?b s s1" and r1: "rng s1 = rng s"
    and cells1: "\<forall>i<nat (num_rows s). \<forall>j<nat (num_cols s).
               (if i = nat r \<and> int j \<in> set (py_range (num_cols s - 1))
                then check_cell_neighbors s r (int j) = Inr (grids s1 ! nat ?b ! i ! j)
                else grids s1 ! nat ?b ! i ! j = grids s ! nat ?b ! i ! j)"
    by blast
  have f1: "active_grid s1 = active_grid s" "num_rows s1 = num_rows s" "num_cols s1 = num_cols s"
    using modifies_fields[OF m1] by auto
  have b1: "inactive_grid s1 = ?b" using f1 by (simp add: inactive_grid_def)
  have a1: "grids s1 ! nat (active_grid s) = grids s ! nat (active_grid s)"
    using m1 inactive_neq_active[OF Cons.prems(1)] by (simp add: modifies_def)
  have cong: "check_cell_neighbors s1 x y = check_cell_neighbors s x y" for x y
    using Cons.prems(1) w1 f1(1) a1 by (rule check_cell_neighbors_cong)
  have "\<exists>s'. update_rows rs s1 = Inr s' \<and> wf_game s' \<and> modifies (inactive_grid s1) s1 s' \<and>
           rng s' = rng s1 \<and>
           (\<forall>i<nat (num_rows s1). \<forall>j<nat (num_cols s1).
               (if int i \<in> set rs \<and> int j < num_cols s1 - 1
                then check_cell_neighbors s1 (int i) (int j)
                       = Inr (grids s' ! nat (inactive_grid s1) ! i ! j)
                else grids s' ! nat (inactive_grid s1) ! i ! j
                       = grids s1 ! nat (inactive_grid s1) ! i ! j))"
    using Cons.prems(2) f1 by (intro Cons.IH[OF w1]) auto
  then obtain s' where run: "update_rows rs s1 = Inr s'" and w': "wf_game s'"
    and m': "modifies ?b s1 s'" and r': "rng s' = rng s1"
    and cells': "\<forall>i<nat (num_rows s). \<forall>j<nat (num_cols s).
               (if int i \<in> set rs \<and> int j < num_cols s - 1
                then check_cell_neighbors s (int i) (int j) = Inr (grids s' ! nat ?b ! i ! j)
                else grids s' ! nat ?b ! i ! j = grids s1 ! nat ?b ! i ! j)"
    unfolding b1 f1 cong by blast
  have "update_rows (r # rs) s = Inr s'"
    using run1 run by simp
  moreover have "modifies ?b s s'"
    using m1 m' by (blast intro: modifies_trans)
  moreover have "rng s' = rng s" using r' r1 by simp
  moreover have "\<forall>i<nat (num_rows s). \<forall>j<nat (num_cols s).
               (if int i \<in> set (r # rs) \<and> int j < num_cols s - 1
                then check_cell_neighbors s (int i) (int j) = Inr (grids s' ! nat ?b ! i ! j)
                else grids s' ! nat ?b ! i ! j = grids s ! nat ?b ! i ! j)"
  proof (intro allI impI)
    fix i j
    assume i: "i < nat (num_rows s)" and j: "j < nat (num_cols s)"
    have e: "int i = r \<longleftrightarrow> i = nat r" using r(1) by auto
    have m: "int j \<in> set (py_range (num_cols s - 1)) \<longleftrightarrow> int j < num_cols s - 1"
      by (auto simp: py_range_def)
    from cells' i j have
      h: "if int i \<in> set rs \<and> int j < num_cols s - 1
          then check_cell_neighbors s (int i) (int j) = Inr (grids s' ! nat ?b ! i ! j)
          else grids s' ! nat ?b ! i ! j = grids s1 ! nat ?b ! i ! j"
      by blast
    from cells1 i j m have
      h1: "if i = nat r \<and> int j < num_cols s - 1
          then check_cell_neighbors s r (int j) = Inr (grids s1 ! nat ?b ! i ! j)
          else grids s1 ! nat ?b ! i ! j = grids s ! nat ?b ! i ! j"
      by simp
    show "if int i \<in> set (r # rs) \<and> int j < num_cols s - 1
          then check_cell_neighbors s (int i) (int j) = Inr (grids s' ! nat ?b ! i ! j)
          else grids s' ! nat ?b ! i ! j = grids s ! nat ?b ! i ! j"
    proof (cases "int i \<in> set rs \<and> int j < num_cols s - 1")
      case True
      then show ?thesis using h by simp
    next
      case False
      then have "grids s' ! nat ?b ! i ! j = grids s1 ! nat ?b ! i ! j" using h by simp
      then show ?thesis using False h1 e by auto
    qed
  qed
  ultimately show ?case using w' by blast
qed

lemma update_generation_run:
  assumes "wf_game s"
  shows "\<exists>s'. update_generation s = Inr s' \<and> wf_game s' \<and>
           s' = s\<lparr>grids := grids s', active_grid := inactive_grid s\<rparr> \<and>
           grids s' ! nat (active_grid s) = grids s ! nat (active_grid s) \<and>
           (\<forall>i<nat (num_rows s). \<forall>j<nat (num_cols s).
               (if int i < num_rows s - 1 \<and> int j < num_cols s - 1
                then check_cell_neighbors s (int i) (int j)
                       = Inr (grids s' ! nat (inactive_grid s) ! i ! j)
                else grids s' ! nat (inactive_grid s) ! i ! j = 0))"
proof -
  let ?b = "inactive_grid s"
  have b: "?b = 0 \<or> ?b = 1" by (rule inactive_grid_binary)
  from set_grid_run[OF assms b, of "Some 0"]
  obtain s1 where run1: "set_grid (Some 0) ?b s = Inr s1" and w1: "wf_game s1"
    and m1: "modifies ?b s s1" and r1: "rng s1 = rng s"
    and cells1: "\<forall>i<nat (num_rows s). \<forall>j<nat (num_cols s). grids s1 ! nat ?b ! i ! j = 0"
    by auto
  have f1: "active_grid s1 = active_grid s" "num_rows s1 = num_rows s" "num_cols s1 = num_cols s"
    using modifies_fields[OF m1] by auto
  have b1: "inactive_grid s1 = ?b" using f1 by (simp add: inactive_grid_def)
  have a1: "grids s1 ! nat (active_grid s) = grids s ! nat (active_grid s)"
    using m1 inactive_neq_active[OF assms] by (simp add: modifies_def)
  have cong: "check_cell_neighbors s1 x y = check_cell_neighbors s x y" for x y
    using assms w1 f1(1) a1 by (rule check_cell_neighbors_cong)
  have rows: "\<forall>r\<in>set (py_range (num_rows s1 - 1)). 0 \<le> r \<and> r < num_rows s1"
    by (auto simp: py_range_def)
  from update_rows_run[OF w1 rows]
  obtain s2 where run2: "update_rows (py_range (num_rows s1 - 1)) s1 = Inr s2"
    and w2: "wf_game s2" and m2: "modifies ?b s1 s2" and r2: "rng s2 = rng s1"
    and cells2: "\<forall>i<nat (num_rows s). \<forall>j<nat (num_cols s).
               (if int i \<in> set (py_range (num_rows s - 1)) \<and> int j < num_cols s - 1
                then check_cell_neighbors s (int i) (int j) = Inr (grids s2 ! nat ?b ! i ! j)
                else grids s2 ! nat ?b ! i ! j = grids s1 ! nat ?b ! i ! j)"
    unfolding b1 f1 cong by blast
  have m: "modifies ?b s s2" using m1 m2 by (rule modifies_trans)
  have f2: "active_grid s2 = active_grid s" using modifies_fields[OF m] by simp
  have b2: "inactive_grid s2 = ?b" using f2 by (simp add: inactive_grid_def)
  define s' where "s' = s2\<lparr>active_grid := ?b\<rparr>"
  have run: "update_generation s = Inr s'"
    using run1 run2 b2 by (simp add: update_generation_def s'_def)
  have w': "wf_game s'" using w2 b by (auto simp: wf_game_def s'_def)
  have "s2 = s\<lparr>grids := grids s2, rng := rng s\<rparr>"
    using m r1 r2 by (simp add: modifies_def)
  then have "s2 = s\<lparr>grids := grids s2\<rparr>" by simp
  then have eq: "s' = s\<lparr>grids := grids s', active_grid := ?b\<rparr>"
    unfolding s'_def
    by (metis (no_types, lifting) game.select_convs(4) game.surjective game.update_convs(1,4))
  have act: "grids s' ! nat (active_grid s) = grids s ! nat (active_grid s)"
    using m inactive_neq_active[OF assms] by (simp add: modifies_def s'_def)
  have cells: "\<forall>i<nat (num_rows s). \<forall>j<nat (num_cols s).
               (if int i < num_rows s - 1 \<and> int j < num_cols s - 1
                then check_cell_neighbors s (int i) (int j) = Inr (grids s' ! nat ?b ! i ! j)
                else grids s' ! nat ?b ! i ! j = 0)"
  proof (intro allI impI)
    fix i j
    assume i: "i < nat (num_rows s)" and j: "j < nat (num_cols s)"
    have mm: "int i \<in> set (py_range (num_rows s - 1)) \<longleftrightarrow> int i < num_rows s - 1"
      by (auto simp: py_range_def)
    have g: "grids s' = grids s2" by (simp add: s'_def)
    show "if int i < num_rows s - 1 \<and> int j < num_cols s - 1
          then check_cell_neighbors s (int i) (int j) = Inr (grids s' ! nat ?b ! i ! j)
          else grids s' ! nat ?b ! i ! j = 0"
      using cells2 cells1 i j mm g by auto
  qed
  show ?thesis using run w' eq act cells by blast
qed

subsection \<open>Reads through get_cell\<close>

lemma get_cell_in:
  assumes "wf_game s" "0 \<le> r" "r < num_rows s" "0 \<le> c" "c < num_cols s"
  shows "get_cell s r c = grids s ! nat (active_grid s) ! nat r ! nat c"
proof -
  have k: "nat (active_grid s) < 2" using assms(1) by (auto simp: wf_game_def)
  have 2: "py_get (grids s ! nat (active_grid s)) r = Inr (grids s ! nat (active_grid s) ! nat r)"
    using assms(2,3) wf_rows_length[OF assms(1) k] by (intro py_get_in) auto
  have 3: "py_get (grids s ! nat (active_grid s) ! nat r) c
      = Inr (grids s ! nat (active_grid s) ! nat r ! nat c)"
    using assms(2-5) wf_row_length[OF assms(1) k, of "nat r"] by (intro py_get_in) auto
  show ?thesis by (simp add: get_cell_def active_buffer_read[OF assms(1)] 2 3)
qed

lemma get_cell_binary:
  assumes "wf_game s"
  shows "get_cell s r c = 0 \<or> get_cell s r c = 1"
proof (cases "active_cell s r c")
  case (Inl e)
  then have "get_cell s r c = 0"
    by (auto simp: get_cell_def active_cell_def split: sum.splits)
  then show ?thesis by simp
next
  case (Inr v)
  then have "get_cell s r c = v"
    by (auto simp: get_cell_def active_cell_def split: sum.splits)
  then show ?thesis using active_cell_binary[OF assms Inr] by simp
qed

lemma num_alive_neighbors_bounds:
  "wf_game s \<Longrightarrow> 0 \<le> num_alive_neighbors s r c \<and> num_alive_neighbors s r c \<le> 8"
proof -
  assume w: "wf_game s"
  have "0 \<le> get_cell s x y \<and> get_cell s x y \<le> 1" for x y
    using get_cell_binary[OF w, of x y] by auto
  note b = this
  show ?thesis
    unfolding num_alive_neighbors_def
    using b[of "r - 1" "c - 1"] b[of "r - 1" c] b[of "r - 1" "c + 1"] b[of r "c - 1"]
      b[of r "c + 1"] b[of "r + 1" "c - 1"] b[of "r + 1" "c + 1"] b[of "r + 1" c]
    by linarith
qed

lemma get_cell_beyond:
  assumes "wf_game s"
    and "num_rows s \<le> r \<or> r < - num_rows s \<or> num_cols s \<le> c \<or> c < - num_cols s"
  shows "get_cell s r c = 0"
proof -
  have k: "nat (active_grid s) < 2" using assms(1) by (auto simp: wf_game_def)
  note lr = wf_rows_length[OF assms(1) k]
  show ?thesis
  proof (cases "py_get (grids s ! nat (active_grid s)) r")
    case (Inl e)
    then show ?thesis by (simp add: get_cell_def active_buffer_read[OF assms(1)])
  next
    case (Inr row)
    then obtain i where i: "py_norm (nat (num_rows s)) r = Some i" and row: "row = grids s ! nat (active_grid s) ! i"
      using lr by (auto simp: py_get_def split: option.splits)
    have il: "i < nat (num_rows s)" using i by (rule py_norm_Some)
    have rr: "\<not> (num_rows s \<le> r \<or> r < - num_rows s)"
      using i by (auto simp: py_norm_def split: if_splits)
    have lc: "length row = nat (num_cols s)"
      unfolding row using il by (intro wf_row_length[OF assms(1) k])
    have "py_norm (length row) c = None"
      using assms(2) rr unfolding lc by (auto simp: py_norm_def)
    then have "py_get row c = Inl IndexError" by (simp add: py_get_def)
    then show ?thesis
      by (simp add: get_cell_def active_buffer_read[OF assms(1)] Inr)
  qed
qed

lemma get_cell_wrap_row:
  assumes "wf_game s" "0 < num_rows s"
  shows "get_cell s (- 1) c = get_cell s (num_rows s - 1) c"
proof -
  have k: "nat (active_grid s) < 2" using assms(1) by (auto simp: wf_game_def)
  note lr = wf_rows_length[OF assms(1) k]
  have "py_norm (nat (num_rows s)) (- 1) = py_norm (nat (num_rows s)) (num_rows s - 1)"
    using assms(2) by (auto simp: py_norm_def)
  then have "py_get (grids s ! nat (active_grid s)) (- 1)
      = py_get (grids s ! nat (active_grid s)) (num_rows s - 1)"
    by (simp add: py_get_def lr)
  then show ?thesis by (simp add: get_cell_def active_buffer_read[OF assms(1)])
qed

lemma get_cell_wrap_col:
  assumes "wf_game s" "0 < num_cols s"
  shows "get_cell s r (- 1) = get_cell s r (num_cols s - 1)"
proof -
  have k: "nat (active_grid s) < 2" using assms(1) by (auto simp: wf_game_def)
  have "py_get row (- 1) = py_get row (num_cols s - 1)"
    if "row \<in> set (grids s ! nat (active_grid s))" for row
  proof -
    have "length row = nat (num_cols s)"
      using wf_grid_nth[OF assms(1) k] that by (simp add: wf_grid_def)
    moreover have "py_norm (nat (num_cols s)) (- 1) = py_norm (nat (num_cols s)) (num_cols s - 1)"
      using assms(2) by (auto simp: py_norm_def)
    ultimately show ?thesis by (simp add: py_get_def)
  qed
  then show ?thesis
    by (auto simp: get_cell_def active_buffer_read[OF assms(1)] split: sum.splits dest: py_get_mem)
qed

lemmas run_defs = get_cell_def active_cell_def py_get_def py_set_def py_norm_def py_range_def
  num_alive_neighbors_def check_cell_neighbors_def inactive_grid_def store_cell_def
  set_grid_def update_generation_def randint01_def Let_def upto.simps

lemma ex_all_alive_wf: "wf_game ex_all_alive"
  by (simp add: wf_game_def wf_grid_def ex_all_alive_def)

subsection \<open>Grids cell by cell\<close>

lemma wf_grid_eqI:
  assumes "wf_grid nr nc g" "wf_grid nr nc h"
    and "\<forall>i<nat nr. \<forall>j<nat nc. g ! i ! j = h ! i ! j"
  shows "g = h"
proof (rule nth_equalityI)
  show "length g = length h" using assms(1,2) by (simp add: wf_grid_def)
next
  fix i assume i: "i < length g"
  then have i': "i < nat nr" "i < length h" using assms(1,2) by (simp_all add: wf_grid_def)
  have lg: "length (g ! i) = nat nc" using assms(1) i by (simp add: wf_grid_def)
  have lh: "length (h ! i) = nat nc" using assms(2) i' by (simp add: wf_grid_def)
  show "g ! i = h ! i"
    using lg lh assms(3) i'(1) by (intro nth_equalityI) auto
qed

lemma wf_grid_cells_all:
  assumes "wf_grid nr nc g" "\<forall>i<nat nr. \<forall>j<nat nc. g ! i ! j = v"
  shows "\<forall>row\<in>set g. \<forall>x\<in>set row. x = v"
proof (intro ballI)
  fix row x assume row: "row \<in> set g" and x: "x \<in> set row"
  from row obtain i where i: "i < length g" "row = g ! i" by (auto simp: in_set_conv_nth)
  from x obtain j where j: "j < length row" "x = row ! j" by (auto simp: in_set_conv_nth)
  have "i < nat nr" using assms(1) i(1) by (simp add: wf_grid_def)
  moreover have "j < nat nc" using assms(1) row j(1) by (simp add: wf_grid_def)
  ultimately show "x = v" using assms(2) i(2) j(2) by simp
qed

lemma two_grids_update:
  assumes "length xs = 2" "length ys = 2" "a < 2" "b < 2" "a \<noteq> b" "ys ! a = xs ! a"
  shows "ys = xs[b := ys ! b]"
proof (rule nth_equalityI)
  show "length ys = length (xs[b := ys ! b])" using assms(1,2) by simp
next
  fix k assume "k < length ys"
  then have "k = a \<or> k = b" using assms(2-5) by auto
  then show "ys ! k = xs[b := ys ! b] ! k" using assms by auto
qed

lemma update_generation_deterministic_in_active:
  assumes "wf_game s" "wf_game t" "active_grid t = active_grid s"
    and "num_rows t = num_rows s" "num_cols t = num_cols s"
    and "grids t ! nat (active_grid s) = grids s ! nat (active_grid s)"
    and "update_generation s = Inr s'" "update_generation t = Inr t'"
  shows "grids t' = grids s'"
proof -
  let ?a = "nat (active_grid s)" and ?b = "nat (inactive_grid s)"
  have bt: "inactive_grid t = inactive_grid s" using assms(3) by (simp add: inactive_grid_def)
  have ab: "?a < 2" "?b < 2" "?a \<noteq> ?b"
    using assms(1) inactive_grid_binary[of s] inactive_neq_active[OF assms(1)]
    by (auto simp: wf_game_def)
  from update_generation_run[OF assms(1)] assms(7)
  have ws: "wf_game s'" and as: "grids s' ! ?a = grids s ! ?a"
    and ds: "num_rows s' = num_rows s" "num_cols s' = num_cols s"
    and cs: "\<forall>i<nat (num_rows s). \<forall>j<nat (num_cols s).
               (if int i < num_rows s - 1 \<and> int j < num_cols s - 1
                then check_cell_neighbors s (int i) (int j) = Inr (grids s' ! ?b ! i ! j)
                else grids s' ! ?b ! i ! j = 0)"
    using update_generation_wf[OF assms(1,7)] by auto
  from update_generation_run[OF assms(2)] assms(8)
  have wt: "wf_game t'" and at: "grids t' ! nat (active_grid t) = grids t ! nat (active_grid t)"
    and ct0: "\<forall>i<nat (num_rows t). \<forall>j<nat (num_cols t).
               (if int i < num_rows t - 1 \<and> int j < num_cols t - 1
                then check_cell_neighbors t (int i) (int j)
                       = Inr (grids t' ! nat (inactive_grid t) ! i ! j)
                else grids t' ! nat (inactive_grid t) ! i ! j = 0)"
    by auto
  have dt: "num_rows t' = num_rows s" "num_cols t' = num_cols s"
    using update_generation_wf[OF assms(2,8)] assms(4,5) by auto
  note ct = ct0[unfolded bt assms(3,4,5)]
  note at = at[unfolded assms(3)]
  have cong: "check_cell_neighbors t x y = check_cell_neighbors s x y" for x y
    using assms(1,2,3,6) by (rule check_cell_neighbors_cong)
  have "\<forall>i<nat (num_rows s). \<forall>j<nat (num_cols s). grids t' ! ?b ! i ! j = grids s' ! ?b ! i ! j"
  proof (intro allI impI)
    fix i j assume i: "i < nat (num_rows s)" and j: "j < nat (num_cols s)"
    show "grids t' ! ?b ! i ! j = grids s' ! ?b ! i ! j"
      using cs[rule_format, OF i j] ct[unfolded cong, rule_format, OF i j]
      by (cases "int i < num_rows s - 1 \<and> int j < num_cols s - 1") simp_all
  qed
  moreover have "wf_grid (num_rows s) (num_cols s) (grids t' ! ?b)"
    using wf_grid_nth[OF wt ab(2)] dt by simp
  moreover have "wf_grid (num_rows s) (num_cols s) (grids s' ! ?b)"
    using wf_grid_nth[OF ws ab(2)] ds by simp
  ultimately have b: "grids t' ! ?b = grids s' ! ?b" by (intro wf_grid_eqI) auto
  have a: "grids t' ! ?a = grids s' ! ?a" using as at assms(6) by simp
  show ?thesis
  proof (rule nth_equalityI)
    show "length (grids t') = length (grids s')" using ws wt by (simp add: wf_game_def)
  next
    fix k assume "k < length (grids t')"
    then have "k = ?a \<or> k = ?b" using wt ab by (auto simp: wf_game_def)
    then show "grids t' ! k = grids s' ! k" using a b by auto
  qed
qed

lemma ex_all_alive_reachable: "reachable 2 2 ex_all_alive"
  using ex_all_alive_init by (rule reachable.construct)

lemma py_range_mem: "r \<in> set (py_range n) \<longleftrightarrow> 0 \<le> r \<and> r < n"
  by (auto simp: py_range_def)

subsection \<open>draw_grid raises nothing\<close>

lemma draw_cells_total:
  assumes "wf_game s" "\<forall>(c, r)\<in>set ps. 0 \<le> r \<and> r < num_rows s \<and> 0 \<le> c \<and> c < num_cols s"
  shows "\<exists>fs. draw_cells s ps = Inr fs"
  using assms(2)
proof (induction ps)
  case Nil
  then show ?case by simp
next
  case (Cons p ps)
  obtain c r where p: "p = (c, r)" by (cases p)
  have "active_cell s r c = Inr (grids s ! nat (active_grid s) ! nat r ! nat c)"
    using Cons.prems p by (intro active_cell_in[OF assms(1)]) auto
  moreover obtain fs where "draw_cells s ps = Inr fs" using Cons by auto
  ultimately show ?case using p by simp
qed

lemma draw_grid_total: "wf_game s \<Longrightarrow> \<exists>fs. draw_grid s = Inr fs"
  unfolding draw_grid_def by (rule draw_cells_total) (auto simp: py_range_mem)

subsection \<open>One generation, read through get_cell\<close>

lemma update_generation_cells:
  assumes "wf_game s"
  shows "\<exists>s'. update_generation s = Inr s' \<and> wf_game s' \<and>
           active_grid s' = inactive_grid s \<and>
           num_rows s' = num_rows s \<and> num_cols s' = num_cols s \<and>
           (\<forall>r c. 0 \<le> r \<and> r < num_rows s \<and> 0 \<le> c \<and> c < num_cols s \<longrightarrow>
              (if r < num_rows s - 1 \<and> c < num_cols s - 1
               then check_cell_neighbors s r c = Inr (get_cell s' r c)
               else get_cell s' r c = 0))"
proof -
  let ?b = "inactive_grid s"
  from update_generation_run[OF assms]
  obtain s' where run: "update_generation s = Inr s'" and w': "wf_game s'"
    and eq: "s' = s\<lparr>grids := grids s', active_grid := ?b\<rparr>"
    and cells: "\<forall>i<nat (num_rows s). \<forall>j<nat (num_cols s).
               (if int i < num_rows s - 1 \<and> int j < num_cols s - 1
                then check_cell_neighbors s (int i) (int j) = Inr (grids s' ! nat ?b ! i ! j)
                else grids s' ! nat ?b ! i ! j = 0)"
    by blast
  have f': "active_grid s' = ?b" "num_rows s' = num_rows s" "num_cols s' = num_cols s"
    by (subst eq, simp)+
  have "if r < num_rows s - 1 \<and> c < num_cols s - 1
              then check_cell_neighbors s r c = Inr (get_cell s' r c)
              else get_cell s' r c = 0"
    if rc: "0 \<le> r \<and> r < num_rows s \<and> 0 \<le> c \<and> c < num_cols s" for r c
  proof -
    have g: "get_cell s' r c = grids s' ! nat ?b ! nat r ! nat c"
      using get_cell_in[OF w', of r c] rc f' by simp
    have "nat r < nat (num_rows s)" "nat c < nat (num_cols s)" using rc by auto
    from cells[rule_format, OF this] show ?thesis using rc g by (auto split: if_splits)
  qed
  then show ?thesis using run w' f' by blast
qed

lemma check_cell_neighbors_value:
  assumes "wf_game s" "0 \<le> r" "r < num_rows s" "0 \<le> c" "c < num_cols s"
  shows "check_cell_neighbors s r c =
     Inr (if get_cell s r c = 1
          then (if num_alive_neighbors s r c > 3 \<or> num_alive_neighbors s r c < 2 then 0 else 1)
          else (if num_alive_neighbors s r c = 3 then 1 else 0))"
proof -
  have a: "active_cell s r c = Inr (get_cell s r c)"
    using active_cell_in[OF assms] get_cell_in[OF assms] by simp
  show ?thesis
    using get_cell_binary[OF assms(1), of r c]
    by (auto simp: check_cell_neighbors_def Let_def a)
qed

subsection \<open>Patterns\<close>

lemma displays_cell:
  "displays s p \<Longrightarrow> 0 \<le> r \<Longrightarrow> r < num_rows s \<Longrightarrow> 0 \<le> c \<Longrightarrow> c < num_cols s \<Longrightarrow>
   get_cell s r c = (if (r, c) \<in> set p then 1 else 0)"
  by (simp add: displays_def py_range_mem)

lemma displaysI:
  "(\<And>r c. 0 \<le> r \<Longrightarrow> r < num_rows s \<Longrightarrow> 0 \<le> c \<Longrightarrow> c < num_cols s \<Longrightarrow>
     get_cell s r c = (if (r, c) \<in> set p then 1 else 0)) \<Longrightarrow> displays s p"
  by (simp add: displays_def py_range_mem)

lemma displays_read_wrap:
  assumes "wf_game s" "displays s p" "- 1 \<le> x" "x < num_rows s" "- 1 \<le> y" "y < num_cols s"
    and pos: "0 < num_rows s" "0 < num_cols s"
  shows "get_cell s x y =
     (if ((if x = - 1 then num_rows s - 1 else x), (if y = - 1 then num_cols s - 1 else y)) \<in> set p
      then 1 else 0)"
proof -
  let ?x = "if x = - 1 then num_rows s - 1 else x" and ?y = "if y = - 1 then num_cols s - 1 else y"
  have "get_cell s x y = get_cell s ?x y"
    using get_cell_wrap_row[OF assms(1) pos(1)] by simp
  also have "\<dots> = get_cell s ?x ?y"
    using get_cell_wrap_col[OF assms(1) pos(2)] by simp
  also have "\<dots> = (if (?x, ?y) \<in> set p then 1 else 0)"
    using assms(3-6) pos by (intro displays_cell[OF assms(2)]) auto
  finally show ?thesis .
qed

lemma py_norm_total:
  assumes "- int n \<le> x" "x < int n"
  shows "\<exists>i. py_norm n x = Some i \<and> i < n"
proof (cases "0 \<le> x")
  case True
  then show ?thesis using assms by (simp add: py_norm_def)
next
  case False
  then show ?thesis using assms by (simp add: py_norm_def)
qed

lemma dead_everywhere:
  assumes "wf_game s" "displays s []"
  shows "get_cell s x y = 0"
proof (cases "- num_rows s \<le> x \<and> x < num_rows s \<and> - num_cols s \<le> y \<and> y < num_cols s")
  case False
  then show ?thesis using get_cell_beyond[OF assms(1), of x y] by auto
next
  case True
  have k: "nat (active_grid s) < 2" using assms(1) by (auto simp: wf_game_def)
  let ?g = "grids s ! nat (active_grid s)"
  obtain i where i: "py_norm (nat (num_rows s)) x = Some i" "i < nat (num_rows s)"
    using True py_norm_total[of "nat (num_rows s)" x] by auto
  obtain j where j: "py_norm (nat (num_cols s)) y = Some j" "j < nat (num_cols s)"
    using True py_norm_total[of "nat (num_cols s)" y] by auto
  have 1: "py_get ?g x = Inr (?g ! i)"
    using i(1) wf_rows_length[OF assms(1) k] by (simp add: py_get_def)
  have 2: "py_get (?g ! i) y = Inr (?g ! i ! j)"
    using j(1) wf_row_length[OF assms(1) k i(2)] by (simp add: py_get_def)
  have "get_cell s x y = ?g ! i ! j"
    by (simp add: get_cell_def active_buffer_read[OF assms(1)] 1 2)
  also have "\<dots> = get_cell s (int i) (int j)"
    using get_cell_in[OF assms(1), of "int i" "int j"] i(2) j(2) by simp
  also have "\<dots> = 0"
    using displays_cell[OF assms(2), of "int i" "int j"] i(2) j(2) by simp
  finally show ?thesis .
qed

lemma lone_cell_next:
  assumes "wf_game s" "displays s [(a, b)]"
    and "0 \<le> r" "r < num_rows s - 1" "0 \<le> c" "c < num_cols s - 1"
  shows "check_cell_neighbors s r c = Inr 0"
proof -
  have pos: "0 < num_rows s" "0 < num_cols s" using assms(3-6) by linarith+
  have rc: "0 \<le> r" "r < num_rows s" "0 \<le> c" "c < num_cols s" using assms(3-6) by linarith+
  define up where "up = (if r = 0 then num_rows s - 1 else r - 1)"
  define left where "left = (if c = 0 then num_cols s - 1 else c - 1)"
  define U I D L J R where "U \<longleftrightarrow> up = a" and "I \<longleftrightarrow> r = a" and "D \<longleftrightarrow> r + 1 = a"
    and "L \<longleftrightarrow> left = b" and "J \<longleftrightarrow> c = b" and "R \<longleftrightarrow> c + 1 = b"
  note bools = U_def I_def D_def L_def J_def R_def
  have rd: "get_cell s x y =
     (if (if x = - 1 then num_rows s - 1 else x) = a \<and> (if y = - 1 then num_cols s - 1 else y) = b
      then 1 else 0)"
    if "- 1 \<le> x" "x < num_rows s" "- 1 \<le> y" "y < num_cols s" for x y
    using displays_read_wrap[OF assms(1,2) that pos] by simp
  have g: "get_cell s (r - 1) (c - 1) = (if U \<and> L then 1 else 0)"
    "get_cell s (r - 1) c = (if U \<and> J then 1 else 0)"
    "get_cell s (r - 1) (c + 1) = (if U \<and> R then 1 else 0)"
    "get_cell s r (c - 1) = (if I \<and> L then 1 else 0)"
    "get_cell s r c = (if I \<and> J then 1 else 0)"
    "get_cell s r (c + 1) = (if I \<and> R then 1 else 0)"
    "get_cell s (r + 1) (c - 1) = (if D \<and> L then 1 else 0)"
    "get_cell s (r + 1) c = (if D \<and> J then 1 else 0)"
    "get_cell s (r + 1) (c + 1) = (if D \<and> R then 1 else 0)"
    unfolding bools up_def left_def using assms(3-6) by (subst rd; simp; fail)+
  have ex: "\<not> (U \<and> I)" "\<not> (I \<and> D)" "\<not> (L \<and> J)" "\<not> (J \<and> R)"
    unfolding bools up_def left_def using assms(3-6) by (auto split: if_splits)
  show ?thesis
    unfolding check_cell_neighbors_value[OF assms(1) rc] num_alive_neighbors_def g
    using ex by (cases U; cases I; cases D; cases L; cases J; cases R) simp_all
qed

lemma blinker_v_next:
  assumes "wf_game s" "displays s (blinker_v r c)"
    and "1 \<le> r" "r + 2 < num_rows s" "1 \<le> c" "c + 2 < num_cols s"
    and "0 \<le> i" "i < num_rows s - 1" "0 \<le> j" "j < num_cols s - 1"
  shows "check_cell_neighbors s i j = Inr (if (i, j) \<in> set (blinker_h r c) then 1 else 0)"
proof -
  have pos: "0 < num_rows s" "0 < num_cols s" using assms(3-6) by linarith+
  have ij: "0 \<le> i" "i < num_rows s" "0 \<le> j" "j < num_cols s" using assms(7-10) by linarith+
  have rd: "get_cell s x y = (if y = c \<and> r - 1 \<le> x \<and> x \<le> r + 1 then 1 else 0)"
    if "- 1 \<le> x" "x < num_rows s" "- 1 \<le> y" "y < num_cols s" for x y
    unfolding displays_read_wrap[OF assms(1,2) that pos] blinker_v_def
    using assms(3-6) that by auto
  define A B C where "A \<longleftrightarrow> j - 1 = c" and "B \<longleftrightarrow> j = c" and "C \<longleftrightarrow> j + 1 = c"
  define P Q R where "P \<longleftrightarrow> r - 1 \<le> i - 1 \<and> i - 1 \<le> r + 1" and "Q \<longleftrightarrow> r - 1 \<le> i \<and> i \<le> r + 1"
    and "R \<longleftrightarrow> r - 1 \<le> i + 1 \<and> i + 1 \<le> r + 1"
  define T where "T \<longleftrightarrow> i = r"
  note bools = A_def B_def C_def P_def Q_def R_def T_def
  have g: "get_cell s (i - 1) (j - 1) = (if A \<and> P then 1 else 0)"
    "get_cell s (i - 1) j = (if B \<and> P then 1 else 0)"
    "get_cell s (i - 1) (j + 1) = (if C \<and> P then 1 else 0)"
    "get_cell s i (j - 1) = (if A \<and> Q then 1 else 0)"
    "get_cell s i j = (if B \<and> Q then 1 else 0)"
    "get_cell s i (j + 1) = (if C \<and> Q then 1 else 0)"
    "get_cell s (i + 1) (j - 1) = (if A \<and> R then 1 else 0)"
    "get_cell s (i + 1) j = (if B \<and> R then 1 else 0)"
    "get_cell s (i + 1) (j + 1) = (if C \<and> R then 1 else 0)"
    unfolding bools using assms(7-10) by (subst rd; simp; fail)+
  have ex: "\<not> (A \<and> B)" "\<not> (A \<and> C)" "\<not> (B \<and> C)" "T \<longleftrightarrow> P \<and> Q \<and> R"
    unfolding bools by auto
  have tgt: "(i, j) \<in> set (blinker_h r c) \<longleftrightarrow> T \<and> (A \<or> B \<or> C)"
    unfolding bools blinker_h_def by auto
  show ?thesis
    unfolding check_cell_neighbors_value[OF assms(1) ij] num_alive_neighbors_def g tgt
    using ex by (cases A; cases B; cases C; cases P; cases Q; cases R) simp_all
qed

lemma blinker_h_next:
  assumes "wf_game s" "displays s (blinker_h r c)"
    and "1 \<le> r" "r + 2 < num_rows s" "1 \<le> c" "c + 2 < num_cols s"
    and "0 \<le> i" "i < num_rows s - 1" "0 \<le> j" "j < num_cols s - 1"
  shows "check_cell_neighbors s i j = Inr (if (i, j) \<in> set (blinker_v r c) then 1 else 0)"
proof -
  have pos: "0 < num_rows s" "0 < num_cols s" using assms(3-6) by linarith+
  have ij: "0 \<le> i" "i < num_rows s" "0 \<le> j" "j < num_cols s" using assms(7-10) by linarith+
  have rd: "get_cell s x y = (if x = r \<and> c - 1 \<le> y \<and> y \<le> c + 1 then 1 else 0)"
    if "- 1 \<le> x" "x < num_rows s" "- 1 \<le> y" "y < num_cols s" for x y
    unfolding displays_read_wrap[OF assms(1,2) that pos] blinker_h_def
    using assms(3-6) that by auto
  define A B C where "A \<longleftrightarrow> i - 1 = r" and "B \<longleftrightarrow> i = r" and "C \<longleftrightarrow> i + 1 = r"
  define P Q R where "P \<longleftrightarrow> c - 1 \<le> j - 1 \<and> j - 1 \<le> c + 1" and "Q \<longleftrightarrow> c - 1 \<le> j \<and> j \<le> c + 1"
    and "R \<longleftrightarrow> c - 1 \<le> j + 1 \<and> j + 1 \<le> c + 1"
  define T where "T \<longleftrightarrow> j = c"
  note bools = A_def B_def C_def P_def Q_def R_def T_def
  have g: "get_cell s (i - 1) (j - 1) = (if A \<and> P then 1 else 0)"
    "get_cell s (i - 1) j = (if A \<and> Q then 1 else 0)"
    "get_cell s (i - 1) (j + 1) = (if A \<and> R then 1 else 0)"
    "get_cell s i (j - 1) = (if B \<and> P then 1 else 0)"
    "get_cell s i j = (if B \<and> Q then 1 else 0)"
    "get_cell s i (j + 1) = (if B \<and> R then 1 else 0)"
    "get_cell s (i + 1) (j - 1) = (if C \<and> P then 1 else 0)"
    "get_cell s (i + 1) j = (if C \<and> Q then 1 else 0)"
    "get_cell s (i + 1) (j + 1) = (if C \<and> R then 1 else 0)"
    unfolding bools using assms(7-10) by (subst rd; simp; fail)+
  have ex: "\<not> (A \<and> B)" "\<not> (A \<and> C)" "\<not> (B \<and> C)" "T \<longleftrightarrow> P \<and> Q \<and> R"
    unfolding bools by auto
  have tgt: "(i, j) \<in> set (blinker_v r c) \<longleftrightarrow> T \<and> (A \<or> B \<or> C)"
    unfolding bools blinker_v_def by auto
  show ?thesis
    unfolding check_cell_neighbors_value[OF assms(1) ij] num_alive_neighbors_def g tgt
    using ex by (cases A; cases B; cases C; cases P; cases Q; cases R) simp_all
qed

lemma blinker_step:
  assumes "wf_game s" "1 \<le> r" "r + 2 < num_rows s" "1 \<le> c" "c + 2 < num_cols s"
    and "(p = blinker_v r c \<and> q = blinker_h r c) \<or> (p = blinker_h r c \<and> q = blinker_v r c)"
    and "displays s p"
  shows "\<exists>s'. update_generation s = Inr s' \<and> wf_game s' \<and> active_grid s' = inactive_grid s \<and>
           num_rows s' = num_rows s \<and> num_cols s' = num_cols s \<and> displays s' q"
proof -
  from update_generation_cells[OF assms(1)]
  obtain s' where run: "update_generation s = Inr s'" and w': "wf_game s'"
    and a': "active_grid s' = inactive_grid s"
    and d: "num_rows s' = num_rows s" "num_cols s' = num_cols s"
    and cells: "\<forall>i j. 0 \<le> i \<and> i < num_rows s \<and> 0 \<le> j \<and> j < num_cols s \<longrightarrow>
              (if i < num_rows s - 1 \<and> j < num_cols s - 1
               then check_cell_neighbors s i j = Inr (get_cell s' i j)
               else get_cell s' i j = 0)"
    by blast
  have inside: "i < num_rows s - 1 \<and> j < num_cols s - 1" if "(i, j) \<in> set q" for i j
    using that assms(2-6) by (auto simp: blinker_v_def blinker_h_def)
  have nxt: "check_cell_neighbors s i j = Inr (if (i, j) \<in> set q then 1 else 0)"
    if "0 \<le> i" "i < num_rows s - 1" "0 \<le> j" "j < num_cols s - 1" for i j
    using assms(6,7) blinker_v_next[OF assms(1) _ assms(2-5) that]
      blinker_h_next[OF assms(1) _ assms(2-5) that]
    by auto
  have "displays s' q"
  proof (rule displaysI)
    fix i j assume "0 \<le> i" "i < num_rows s'" "0 \<le> j" "j < num_cols s'"
    then have ij: "0 \<le> i \<and> i < num_rows s \<and> 0 \<le> j \<and> j < num_cols s" using d by auto
    show "get_cell s' i j = (if (i, j) \<in> set q then 1 else 0)"
    proof (cases "i < num_rows s - 1 \<and> j < num_cols s - 1")
      case True
      then show ?thesis using cells[rule_format, OF ij] nxt[of i j] ij by simp
    next
      case False
      then have "(i, j) \<notin> set q" using inside by blast
      then show ?thesis using cells[rule_format, OF ij] False by (simp split: if_splits)
    qed
  qed
  then show ?thesis using run w' a' d by blast
qed

lemma displays_same_grid:
  assumes "wf_game s" "wf_game t" "num_rows t = num_rows s" "num_cols t = num_cols s"
    and "displays s p" "displays t p"
  shows "grids t ! nat (active_grid t) = grids s ! nat (active_grid s)"
proof -
  have ks: "nat (active_grid s) < 2" and kt: "nat (active_grid t) < 2"
    using assms(1,2) by (auto simp: wf_game_def)
  have "grids t ! nat (active_grid t) ! i ! j = grids s ! nat (active_grid s) ! i ! j"
    if "i < nat (num_rows s)" "j < nat (num_cols s)" for i j
  proof -
    have r: "0 \<le> int i" "int i < num_rows s" "0 \<le> int j" "int j < num_cols s" using that by auto
    have "get_cell t (int i) (int j) = get_cell s (int i) (int j)"
      using displays_cell[OF assms(5) r] displays_cell[OF assms(6), of "int i" "int j"] r assms(3,4)
      by simp
    then show ?thesis
      using get_cell_in[OF assms(1) r] get_cell_in[OF assms(2), of "int i" "int j"] r assms(3,4)
      by simp
  qed
  then show ?thesis
    using wf_grid_nth[OF assms(1) ks] wf_grid_nth[OF assms(2) kt] assms(3,4)
    by (intro wf_grid_eqI[of "num_rows s" "num_cols s"]) auto
qed

lemmas pattern_defs = displays_def blinker_v_def blinker_h_def get_cell_def py_get_def
  py_norm_def py_range_def upto.simps

subsection \<open>The random fill\<close>

text \<open>
  With \<open>value=None\<close> the loops of \<open>set_grid\<close> draw one number per cell, row by row: the
  cell in row \<open>i\<close> and column \<open>j\<close> receives draw \<open>i * num_cols + j\<close>, and the generator
  is left \<open>num_rows * num_cols\<close> draws further.
\<close>

lemma set_grid_row_random:
  assumes "wf_game s" "g = 0 \<or> g = 1" "0 \<le> r" "r < num_rows s" "0 \<le> lo" "hi < num_cols s"
  shows "\<exists>s'. set_grid_row None g r [lo..hi] s = Inr s' \<and> wf_game s' \<and>
           rng s' = (\<lambda>k. rng s (k + nat (hi + 1 - lo))) \<and>
           (\<forall>i<nat (num_rows s). \<forall>j<nat (num_cols s).
               grids s' ! nat g ! i ! j =
                 (if i = nat r \<and> lo \<le> int j \<and> int j \<le> hi
                  then (if rng s (nat (int j - lo)) then 1 else 0)
                  else grids s ! nat g ! i ! j))"
  using assms
proof (induction lo hi arbitrary: s rule: upto.induct)
  case (1 lo hi)
  show ?case
  proof (cases "lo \<le> hi")
    case False
    then have "[lo..hi] = []" by simp
    then show ?thesis using False "1.prems"(1) by auto
  next
    case True
    then have up: "[lo..hi] = lo # [lo + 1..hi]" by (rule upto_rec1)
    define v :: int where "v = (if rng s 0 then 1 else 0)"
    define s1 where "s1 = s\<lparr>rng := (\<lambda>k. rng s (Suc k))\<rparr>"
    have d: "randint01 s = (v, s1)" by (simp add: randint01_def v_def s1_def)
    have w1: "wf_game s1" and v: "v = 0 \<or> v = 1"
      using randint01_wf[OF "1.prems"(1) d] by auto
    have f1: "num_rows s1 = num_rows s" "num_cols s1 = num_cols s" "grids s1 = grids s"
      by (simp_all add: s1_def)
    have c: "0 \<le> lo" "lo < num_cols s1" using "1.prems"(5,6) True f1 by auto
    have r: "0 \<le> r" "r < num_rows s1" using "1.prems"(3,4) f1 by auto
    define s2 where "s2 = s1\<lparr>grids := (grids s1)[nat g := (grids s1 ! nat g)
        [nat r := (grids s1 ! nat g ! nat r)[nat lo := v]]]\<rparr>"
    have st: "store_cell g r lo v s1 = Inr s2"
      unfolding s2_def by (rule store_cell_exact[OF w1 "1.prems"(2) r c])
    have w2: "wf_game s2" using w1 v st by (rule store_cell_wf)
    have f2: "num_rows s2 = num_rows s" "num_cols s2 = num_cols s"
      "rng s2 = (\<lambda>k. rng s (Suc k))"
      by (simp_all add: s2_def s1_def)
    have cells2: "grids s2 ! nat g ! i ! j = (if i = nat r \<and> j = nat lo then v else grids s ! nat g ! i ! j)"
      if "i < nat (num_rows s)" "j < nat (num_cols s)" for i j
      using store_cell_cells[OF w1 "1.prems"(2) r c st, of i j] that f1 by simp
    have "\<exists>s'. set_grid_row None g r [lo + 1..hi] s2 = Inr s' \<and> wf_game s' \<and>
           rng s' = (\<lambda>k. rng s2 (k + nat (hi + 1 - (lo + 1)))) \<and>
           (\<forall>i<nat (num_rows s2). \<forall>j<nat (num_cols s2).
               grids s' ! nat g ! i ! j =
                 (if i = nat r \<and> lo + 1 \<le> int j \<and> int j \<le> hi
                  then (if rng s2 (nat (int j - (lo + 1))) then 1 else 0)
                  else grids s2 ! nat g ! i ! j))"
      using "1.prems"(2-6) f2 by (intro "1.IH"[OF True w2]) auto
    then obtain s' where run: "set_grid_row None g r [lo + 1..hi] s2 = Inr s'"
      and w': "wf_game s'"
      and r': "rng s' = (\<lambda>k. rng s2 (k + nat (hi + 1 - (lo + 1))))"
      and cells': "\<forall>i<nat (num_rows s). \<forall>j<nat (num_cols s).
               grids s' ! nat g ! i ! j =
                 (if i = nat r \<and> lo + 1 \<le> int j \<and> int j \<le> hi
                  then (if rng s2 (nat (int j - (lo + 1))) then 1 else 0)
                  else grids s2 ! nat g ! i ! j)"
      unfolding f2(1,2) by blast
    have "set_grid_row None g r [lo..hi] s = Inr s'"
      unfolding up using d st run by simp
    moreover have "rng s' = (\<lambda>k. rng s (k + nat (hi + 1 - lo)))"
    proof -
      have "nat (hi + 1 - lo) = Suc (nat (hi + 1 - (lo + 1)))"
        using True by auto
      then show ?thesis unfolding r' f2(3) by simp
    qed
    moreover have "\<forall>i<nat (num_rows s). \<forall>j<nat (num_cols s).
               grids s' ! nat g ! i ! j =
                 (if i = nat r \<and> lo \<le> int j \<and> int j \<le> hi
                  then (if rng s (nat (int j - lo)) then 1 else 0)
                  else grids s ! nat g ! i ! j)"
    proof (intro allI impI)
      fix i j assume i: "i < nat (num_rows s)" and j: "j < nat (num_cols s)"
      have e: "int j = lo \<longleftrightarrow> j = nat lo" using c(1) by auto
      have sh: "Suc (nat (int j - (lo + 1))) = nat (int j - lo)" if "lo + 1 \<le> int j"
        using that by auto
      show "grids s' ! nat g ! i ! j =
                 (if i = nat r \<and> lo \<le> int j \<and> int j \<le> hi
                  then (if rng s (nat (int j - lo)) then 1 else 0)
                  else grids s ! nat g ! i ! j)"
      proof (cases "i = nat r \<and> lo + 1 \<le> int j \<and> int j \<le> hi")
        case True
        note h = cells'[rule_format, OF i j, unfolded if_P[OF True] f2(3)]
        have "Suc (nat (int j - (lo + 1))) = nat (int j - lo)" using True sh by simp
        then show ?thesis using h True by simp
      next
        case False
        note h = cells'[rule_format, OF i j, unfolded if_not_P[OF False]]
        show ?thesis
          using h False cells2[OF i j] e \<open>lo \<le> hi\<close> by (auto simp: v_def)
      qed
    qed
    ultimately show ?thesis using w' by blast
  qed
qed

lemma set_grid_rows_random:
  assumes "wf_game s" "g = 0 \<or> g = 1" "0 \<le> lo" "hi < num_rows s"
  shows "\<exists>s'. set_grid_rows None g [lo..hi] s = Inr s' \<and> wf_game s' \<and>
           rng s' = (\<lambda>k. rng s (k + nat (hi + 1 - lo) * nat (num_cols s))) \<and>
           (\<forall>i<nat (num_rows s). \<forall>j<nat (num_cols s).
               grids s' ! nat g ! i ! j =
                 (if lo \<le> int i \<and> int i \<le> hi
                  then (if rng s (nat (int i - lo) * nat (num_cols s) + j) then 1 else 0)
                  else grids s ! nat g ! i ! j))"
  using assms
proof (induction lo hi arbitrary: s rule: upto.induct)
  case (1 lo hi)
  let ?C = "nat (num_cols s)"
  show ?case
  proof (cases "lo \<le> hi")
    case False
    then have "[lo..hi] = []" by simp
    then show ?thesis using False "1.prems"(1) by auto
  next
    case True
    then have up: "[lo..hi] = lo # [lo + 1..hi]" by (rule upto_rec1)
    have r: "0 \<le> lo" "lo < num_rows s" using "1.prems"(3,4) True by auto
    have "\<exists>s1. set_grid_row None g lo [0..num_cols s - 1] s = Inr s1 \<and> wf_game s1 \<and>
           rng s1 = (\<lambda>k. rng s (k + nat (num_cols s - 1 + 1 - 0))) \<and>
           (\<forall>i<nat (num_rows s). \<forall>j<nat (num_cols s).
               grids s1 ! nat g ! i ! j =
                 (if i = nat lo \<and> 0 \<le> int j \<and> int j \<le> num_cols s - 1
                  then (if rng s (nat (int j - 0)) then 1 else 0)
                  else grids s ! nat g ! i ! j))"
      using "1.prems"(1,2) r by (intro set_grid_row_random) auto
    then obtain s1 where run0: "set_grid_row None g lo [0..num_cols s - 1] s = Inr s1"
      and w1: "wf_game s1"
      and r0: "rng s1 = (\<lambda>k. rng s (k + nat (num_cols s - 1 + 1 - 0)))"
      and cells0: "\<forall>i<nat (num_rows s). \<forall>j<nat (num_cols s).
               grids s1 ! nat g ! i ! j =
                 (if i = nat lo \<and> 0 \<le> int j \<and> int j \<le> num_cols s - 1
                  then (if rng s (nat (int j - 0)) then 1 else 0)
                  else grids s ! nat g ! i ! j)"
      by blast
    have run1: "set_grid_row None g lo (py_range (num_cols s)) s = Inr s1"
      using run0 by (simp add: py_range_def)
    have r1: "rng s1 = (\<lambda>k. rng s (k + ?C))" using r0 by simp
    have cells1: "\<forall>i<nat (num_rows s). \<forall>j<nat (num_cols s).
               grids s1 ! nat g ! i ! j =
                 (if i = nat lo then (if rng s j then 1 else 0) else grids s ! nat g ! i ! j)"
    proof (intro allI impI)
      fix i j assume i: "i < nat (num_rows s)" and j: "j < nat (num_cols s)"
      have "0 \<le> int j \<and> int j \<le> num_cols s - 1" using j by auto
      then show "grids s1 ! nat g ! i ! j =
                 (if i = nat lo then (if rng s j then 1 else 0) else grids s ! nat g ! i ! j)"
        using cells0[rule_format, OF i j] by simp
    qed
    have f1: "num_rows s1 = num_rows s" "num_cols s1 = num_cols s"
      using set_grid_row_wf[OF "1.prems"(1) _ run1] by auto
    have "\<exists>s'. set_grid_rows None g [lo + 1..hi] s1 = Inr s' \<and> wf_game s' \<and>
           rng s' = (\<lambda>k. rng s1 (k + nat (hi + 1 - (lo + 1)) * nat (num_cols s1))) \<and>
           (\<forall>i<nat (num_rows s1). \<forall>j<nat (num_cols s1).
               grids s' ! nat g ! i ! j =
                 (if lo + 1 \<le> int i \<and> int i \<le> hi
                  then (if rng s1 (nat (int i - (lo + 1)) * nat (num_cols s1) + j) then 1 else 0)
                  else grids s1 ! nat g ! i ! j))"
      using "1.prems"(2-4) f1 by (intro "1.IH"[OF True w1]) auto
    then obtain s' where run: "set_grid_rows None g [lo + 1..hi] s1 = Inr s'"
      and w': "wf_game s'"
      and r': "rng s' = (\<lambda>k. rng s1 (k + nat (hi + 1 - (lo + 1)) * ?C))"
      and cells': "\<forall>i<nat (num_rows s). \<forall>j<nat (num_cols s).
               grids s' ! nat g ! i ! j =
                 (if lo + 1 \<le> int i \<and> int i \<le> hi
                  then (if rng s1 (nat (int i - (lo + 1)) * ?C + j) then 1 else 0)
                  else grids s1 ! nat g ! i ! j)"
      unfolding f1 by blast
    have "set_grid_rows None g [lo..hi] s = Inr s'"
      unfolding up using run1 run by simp
    moreover have "rng s' = (\<lambda>k. rng s (k + nat (hi + 1 - lo) * ?C))"
    proof -
      have "nat (hi + 1 - lo) = Suc (nat (hi + 1 - (lo + 1)))"
        using True by auto
      then have eq: "k + nat (hi + 1 - (lo + 1)) * ?C + ?C = k + nat (hi + 1 - lo) * ?C" for k
        by simp
      show ?thesis by (simp only: r' r1 eq)
    qed
    moreover have "\<forall>i<nat (num_rows s). \<forall>j<nat (num_cols s).
               grids s' ! nat g ! i ! j =
                 (if lo \<le> int i \<and> int i \<le> hi
                  then (if rng s (nat (int i - lo) * ?C + j) then 1 else 0)
                  else grids s ! nat g ! i ! j)"
    proof (intro allI impI)
      fix i j assume i: "i < nat (num_rows s)" and j: "j < nat (num_cols s)"
      have e: "int i = lo \<longleftrightarrow> i = nat lo" using r(1) by auto
      show "grids s' ! nat g ! i ! j =
                 (if lo \<le> int i \<and> int i \<le> hi
                  then (if rng s (nat (int i - lo) * ?C + j) then 1 else 0)
                  else grids s ! nat g ! i ! j)"
      proof (cases "lo + 1 \<le> int i \<and> int i \<le> hi")
        case True
        note h = cells'[rule_format, OF i j, unfolded if_P[OF True] r1]
        have "nat (int i - lo) = Suc (nat (int i - (lo + 1)))" using True by auto
        then have eq: "nat (int i - (lo + 1)) * ?C + j + ?C = nat (int i - lo) * ?C + j"
          by simp
        have "lo \<le> int i \<and> int i \<le> hi" using True by auto
        then show ?thesis using h unfolding eq by (simp only: if_True simp_thms)
      next
        case False
        note h = cells'[rule_format, OF i j, unfolded if_not_P[OF False]]
        show ?thesis
          using h False cells1[rule_format, OF i j] e \<open>lo \<le> hi\<close> by auto
      qed
    qed
    ultimately show ?thesis using w' by blast
  qed
qed

lemma set_grid_random:
  assumes "wf_game s" "g = 0 \<or> g = 1"
  shows "\<exists>s'. set_grid None g s = Inr s' \<and> wf_game s' \<and> modifies g s s' \<and>
           rng s' = (\<lambda>k. rng s (k + nat (num_rows s) * nat (num_cols s))) \<and>
           (\<forall>i<nat (num_rows s). \<forall>j<nat (num_cols s).
               grids s' ! nat g ! i ! j =
                 (if rng s (i * nat (num_cols s) + j) then 1 else 0))"
proof -
  have "\<exists>s'. set_grid_rows None g [0..num_rows s - 1] s = Inr s' \<and> wf_game s' \<and>
           rng s' = (\<lambda>k. rng s (k + nat (num_rows s - 1 + 1 - 0) * nat (num_cols s))) \<and>
           (\<forall>i<nat (num_rows s). \<forall>j<nat (num_cols s).
               grids s' ! nat g ! i ! j =
                 (if 0 \<le> int i \<and> int i \<le> num_rows s - 1
                  then (if rng s (nat (int i - 0) * nat (num_cols s) + j) then 1 else 0)
                  else grids s ! nat g ! i ! j))"
    using assms by (intro set_grid_rows_random) auto
  then obtain s' where run0: "set_grid_rows None g [0..num_rows s - 1] s = Inr s'"
    and w': "wf_game s'"
    and r0: "rng s' = (\<lambda>k. rng s (k + nat (num_rows s - 1 + 1 - 0) * nat (num_cols s)))"
    and cells0: "\<forall>i<nat (num_rows s). \<forall>j<nat (num_cols s).
               grids s' ! nat g ! i ! j =
                 (if 0 \<le> int i \<and> int i \<le> num_rows s - 1
                  then (if rng s (nat (int i - 0) * nat (num_cols s) + j) then 1 else 0)
                  else grids s ! nat g ! i ! j)"
    by blast
  have run: "set_grid None g s = Inr s'" using run0 by (simp add: set_grid_def py_range_def)
  have r': "rng s' = (\<lambda>k. rng s (k + nat (num_rows s) * nat (num_cols s)))"
    using r0 by simp
  have cells': "\<forall>i<nat (num_rows s). \<forall>j<nat (num_cols s).
               grids s' ! nat g ! i ! j =
                 (if rng s (i * nat (num_cols s) + j) then 1 else 0)"
  proof (intro allI impI)
    fix i j assume i: "i < nat (num_rows s)" and j: "j < nat (num_cols s)"
    have "0 \<le> int i \<and> int i \<le> num_rows s - 1" using i by auto
    then show "grids s' ! nat g ! i ! j = (if rng s (i * nat (num_cols s) + j) then 1 else 0)"
      using cells0[rule_format, OF i j] by simp
  qed
  have "modifies g s s'" using set_grid_run[OF assms, of None] run by auto
  then show ?thesis using run w' r' cells' by blast
qed

subsection \<open>The example states are reachable\<close>

lemmas init_defs = LifeGame_init_def init_grids_def create_grid_def py_range_def set_grid_def
  store_cell_def py_get_def py_set_def py_norm_def randint01_def Let_def upto.simps
  eval_nat_numeral

lemma ex_born_init:
  "LifeGame_init (\<lambda>k. k = 1 \<or> k = 2 \<or> k = 3 \<or> k = 4 \<or> k = 8) 3 3 = Inr ex_born"
  by (simp add: init_defs ex_born_def)

lemma ex_fresh_init:
  "LifeGame_init (\<lambda>k. k < 4 \<or> k = 5 \<or> k = 6) 2 2 = Inr ex_fresh"
  by (simp add: init_defs ex_fresh_def)

lemma ex_born_reachable: "reachable 3 3 ex_born"
  using ex_born_init by (rule reachable.construct)

lemma ex_fresh_reachable: "reachable 2 2 ex_fresh"
  using ex_fresh_init by (rule reachable.construct)

subsection \<open>The count away from row 0 and column 0, and all-dead grids\<close>

lemma get_cell_spec_get:
  assumes "wf_game s" "0 \<le> x" "0 \<le> y"
  shows "get_cell s x y = spec_get s x y"
proof (cases "x < num_rows s \<and> y < num_cols s")
  case True
  then show ?thesis using assms(2,3) by (simp add: spec_get_def)
next
  case False
  then have "get_cell s x y = 0" using get_cell_beyond[OF assms(1), of x y] by auto
  then show ?thesis using False by (auto simp: spec_get_def)
qed

lemma num_alive_neighbors_interior:
  assumes "wf_game s" "1 \<le> r" "1 \<le> c"
  shows "num_alive_neighbors s r c = spec_count_live_neighbors s r c"
  unfolding num_alive_neighbors_def spec_count_live_neighbors_def
  using assms(2,3) by (simp add: get_cell_spec_get[OF assms(1)])

lemma wf_grid_zero:
  assumes "wf_grid nr nc g" "\<forall>i<nat nr. \<forall>j<nat nc. g ! i ! j = 0"
  shows "g = replicate (nat nr) (replicate (nat nc) 0)"
proof -
  have "wf_grid nr nc (replicate (nat nr) (replicate (nat nc) 0))"
    by (auto simp: wf_grid_def)
  then show ?thesis using assms by (intro wf_grid_eqI[of nr nc]) auto
qed

lemma dead_reads_zero_grid:
  assumes "wf_game s"
    and "\<forall>r c. 0 \<le> r \<and> r < num_rows s \<and> 0 \<le> c \<and> c < num_cols s \<longrightarrow> get_cell s r c = 0"
  shows "grids s ! nat (active_grid s) = replicate (nat (num_rows s)) (replicate (nat (num_cols s)) 0)"
proof -
  have k: "nat (active_grid s) < 2" using assms(1) by (auto simp: wf_game_def)
  have "grids s ! nat (active_grid s) ! i ! j = 0"
    if "i < nat (num_rows s)" "j < nat (num_cols s)" for i j
  proof -
    have r: "0 \<le> int i" "int i < num_rows s" "0 \<le> int j" "int j < num_cols s" using that by auto
    then have "get_cell s (int i) (int j) = 0" using assms(2) by blast
    then show ?thesis using get_cell_in[OF assms(1) r] by simp
  qed
  then show ?thesis using wf_grid_nth[OF assms(1) k] by (intro wf_grid_zero) auto
qed

lemma displays_empty_zero_grid:
  assumes "wf_game s" "displays s []"
  shows "grids s ! nat (active_grid s) = replicate (nat (num_rows s)) (replicate (nat (num_cols s)) 0)"
  using assms(1) displays_cell[OF assms(2)] by (intro dead_reads_zero_grid) auto

section \<open>The claims\<close>

text \<open>
  C1 (fails on the code). \<open>get_cell\<close> does not return 0 for every position outside the
  grid: a negative subscript counts from the end of a Python list and raises nothing, so
  the read wraps around to the last row or column. In the 2 by 2 game constructed with
  every cell alive, position \<open>(-1, -1)\<close> lies outside the grid and \<open>get_cell\<close>
  returns 1 there, the cell at \<open>(1, 1)\<close>.
\<close>

theorem get_cell_negative_index:
  "reachable 2 2 ex_all_alive \<and> get_cell ex_all_alive (- 1) (- 1) = 1 \<and>
   spec_get ex_all_alive (- 1) (- 1) = 0"
proof -
  have "get_cell ex_all_alive (- 1) (- 1) = 1"
    by (simp add: run_defs ex_all_alive_def)
  moreover have "spec_get ex_all_alive (- 1) (- 1) = 0"
    by (simp add: spec_get_def)
  ultimately show ?thesis using ex_all_alive_reachable by simp
qed

text \<open>
  C2. From every reachable state \<open>update_generation\<close> completes: \<open>set_grid\<close> first sets
  every cell of the inactive grid to 0, the loops then run over the rows below
  \<open>num_rows - 1\<close> and the columns below \<open>num_cols - 1\<close>, and the active index is
  swapped. In the new active grid a cell of those rows and columns holds what
  \<open>check_cell_neighbors\<close> returned for it on the state at entry, every other cell is 0;
  in particular the last row and the last column are 0.
\<close>

theorem update_generation_spec:
  assumes "reachable n_rows n_cols s"
  shows "\<exists>s1 s2 s'.
           set_grid (Some 0) (inactive_grid s) s = Inr s1 \<and>
           (\<forall>row\<in>set (grids s1 ! nat (inactive_grid s)). \<forall>v\<in>set row. v = 0) \<and>
           update_rows (py_range (num_rows s - 1)) s1 = Inr s2 \<and>
           s' = s2\<lparr>active_grid := inactive_grid s\<rparr> \<and>
           update_generation s = Inr s' \<and>
           active_grid s' = inactive_grid s \<and>
           (\<forall>r\<in>set (py_range (num_rows s)). \<forall>c\<in>set (py_range (num_cols s)).
              if r < num_rows s - 1 \<and> c < num_cols s - 1
              then check_cell_neighbors s r c = Inr (get_cell s' r c)
              else get_cell s' r c = 0) \<and>
           (\<forall>c\<in>set (py_range (num_cols s)). get_cell s' (num_rows s - 1) c = 0) \<and>
           (\<forall>r\<in>set (py_range (num_rows s)). get_cell s' r (num_cols s - 1) = 0)"
proof -
  have w: "wf_game s" using reachable_wf[OF assms] by simp
  let ?b = "inactive_grid s"
  have b: "?b = 0 \<or> ?b = 1" by (rule inactive_grid_binary)
  have k: "nat ?b < 2" using b by auto
  from set_grid_run[OF w b, of "Some 0"]
  obtain s1 where run1: "set_grid (Some 0) ?b s = Inr s1" and w1: "wf_game s1"
    and m1: "modifies ?b s s1"
    and cells1: "\<forall>i<nat (num_rows s). \<forall>j<nat (num_cols s). grids s1 ! nat ?b ! i ! j = 0"
    by auto
  have f1: "active_grid s1 = active_grid s" "num_rows s1 = num_rows s" "num_cols s1 = num_cols s"
    using modifies_fields[OF m1] by auto
  have dead1: "\<forall>row\<in>set (grids s1 ! nat ?b). \<forall>v\<in>set row. v = 0"
    using wf_grid_nth[OF w1 k] cells1 unfolding f1 by (rule wf_grid_cells_all)
  from update_generation_run[OF w]
  obtain s' where run: "update_generation s = Inr s'" and w': "wf_game s'"
    and eq: "s' = s\<lparr>grids := grids s', active_grid := ?b\<rparr>"
    and cells: "\<forall>i<nat (num_rows s). \<forall>j<nat (num_cols s).
               (if int i < num_rows s - 1 \<and> int j < num_cols s - 1
                then check_cell_neighbors s (int i) (int j) = Inr (grids s' ! nat ?b ! i ! j)
                else grids s' ! nat ?b ! i ! j = 0)"
    by blast
  have f': "active_grid s' = ?b" "num_rows s' = num_rows s" "num_cols s' = num_cols s"
    by (subst eq, simp)+
  from run run1 obtain s2 where run2: "update_rows (py_range (num_rows s - 1)) s1 = Inr s2"
    and s2: "s' = s2\<lparr>active_grid := inactive_grid s2\<rparr>"
    by (auto simp: update_generation_def f1 split: sum.splits)
  have "modifies (inactive_grid s1) s1 s2"
    using update_rows_run[OF w1, of "py_range (num_rows s - 1)"] run2 f1
    by (auto simp: py_range_mem)
  then have "active_grid s2 = active_grid s" using modifies_fields[of _ s1 s2] f1 by simp
  then have s2': "s' = s2\<lparr>active_grid := ?b\<rparr>" using s2 by (simp add: inactive_grid_def)
  have cell: "if r < num_rows s - 1 \<and> c < num_cols s - 1
              then check_cell_neighbors s r c = Inr (get_cell s' r c)
              else get_cell s' r c = 0"
    if r: "0 \<le> r" "r < num_rows s" and c: "0 \<le> c" "c < num_cols s" for r c
  proof -
    have g: "get_cell s' r c = grids s' ! nat ?b ! nat r ! nat c"
      using get_cell_in[OF w', of r c] r c f' by simp
    have "nat r < nat (num_rows s)" "nat c < nat (num_cols s)" using r c by auto
    from cells[rule_format, OF this] show ?thesis using r c g by (auto split: if_splits)
  qed
  have main: "\<forall>r\<in>set (py_range (num_rows s)). \<forall>c\<in>set (py_range (num_cols s)).
              if r < num_rows s - 1 \<and> c < num_cols s - 1
              then check_cell_neighbors s r c = Inr (get_cell s' r c)
              else get_cell s' r c = 0"
    using cell by (simp add: py_range_mem)
  have lastrow: "\<forall>c\<in>set (py_range (num_cols s)). get_cell s' (num_rows s - 1) c = 0"
  proof
    fix c assume "c \<in> set (py_range (num_cols s))"
    then have c: "0 \<le> c" "c < num_cols s" by (simp_all add: py_range_mem)
    show "get_cell s' (num_rows s - 1) c = 0"
    proof (cases "0 < num_rows s")
      case True
      then show ?thesis using cell[of "num_rows s - 1" c] c by simp
    next
      case False
      then show ?thesis using get_cell_beyond[OF w', of "num_rows s - 1" c] f' by simp
    qed
  qed
  have lastcol: "\<forall>r\<in>set (py_range (num_rows s)). get_cell s' r (num_cols s - 1) = 0"
  proof
    fix r assume "r \<in> set (py_range (num_rows s))"
    then have r: "0 \<le> r" "r < num_rows s" by (simp_all add: py_range_mem)
    show "get_cell s' r (num_cols s - 1) = 0"
    proof (cases "0 < num_cols s")
      case True
      then show ?thesis using cell[of r "num_cols s - 1"] r by simp
    next
      case False
      then show ?thesis using get_cell_beyond[OF w', of r "num_cols s - 1"] f' by simp
    qed
  qed
  show ?thesis
    using run1 dead1 run2 s2' run f'(1) main lastrow lastcol by blast
qed

theorem update_generation_spec_witness:
  "reachable 2 2 ex_all_alive \<and>
   (\<exists>s'. update_generation ex_all_alive = Inr s' \<and> active_grid s' = 1 \<and>
      get_cell s' 0 0 = 0 \<and> get_cell s' 0 1 = 0 \<and> get_cell s' 1 0 = 0 \<and> get_cell s' 1 1 = 0)"
proof -
  from update_generation_spec[OF ex_all_alive_reachable]
  obtain s' where run: "update_generation ex_all_alive = Inr s'"
    and act: "active_grid s' = inactive_grid ex_all_alive"
    and cells: "\<forall>r\<in>set (py_range (num_rows ex_all_alive)). \<forall>c\<in>set (py_range (num_cols ex_all_alive)).
              if r < num_rows ex_all_alive - 1 \<and> c < num_cols ex_all_alive - 1
              then check_cell_neighbors ex_all_alive r c = Inr (get_cell s' r c)
              else get_cell s' r c = 0"
    by blast
  have chk: "check_cell_neighbors ex_all_alive 0 0 = Inr 0"
    by (simp add: run_defs ex_all_alive_def)
  have d: "num_rows ex_all_alive = 2" "num_cols ex_all_alive = 2"
    by (simp_all add: ex_all_alive_def)
  have cell: "if r < 1 \<and> c < 1 then check_cell_neighbors ex_all_alive r c = Inr (get_cell s' r c)
              else get_cell s' r c = 0"
    if "0 \<le> r" "r < 2" "0 \<le> c" "c < 2" for r c
    using cells that by (simp add: d Ball_def py_range_mem)
  have "get_cell s' 0 0 = 0" using cell[of 0 0] chk by simp
  moreover have "get_cell s' 0 1 = 0" using cell[of 0 1] by simp
  moreover have "get_cell s' 1 0 = 0" using cell[of 1 0] by simp
  moreover have "get_cell s' 1 1 = 0" using cell[of 1 1] by simp
  moreover have "active_grid s' = 1" using act by (simp add: inactive_grid_def ex_all_alive_def)
  ultimately show ?thesis using run ex_all_alive_reachable by blast
qed

text \<open>
  C3 (fails on the code). \<open>check_cell_neighbors\<close> applies the rule B3/S23 to the count
  \<open>num_alive_neighbors\<close>, which wraps around at row 0 and column 0 (C4), so there it does
  not follow the rule on the live neighbours of the cell. In the 3 by 3 game the
  constructor leaves as \<open>ex_born\<close>, the cell at \<open>(0, 0)\<close> is dead with exactly three
  live neighbours; the code counts 5 and returns dead.
\<close>

theorem check_cell_neighbors_misses_birth:
  "reachable 3 3 ex_born \<and> get_cell ex_born 0 0 = 0 \<and>
   spec_count_live_neighbors ex_born 0 0 = 3 \<and> num_alive_neighbors ex_born 0 0 = 5 \<and>
   check_cell_neighbors ex_born 0 0 = Inr 0"
proof -
  have "get_cell ex_born 0 0 = 0" "num_alive_neighbors ex_born 0 0 = 5"
    "check_cell_neighbors ex_born 0 0 = Inr 0"
    by (simp_all add: run_defs ex_born_def)
  moreover have "spec_count_live_neighbors ex_born 0 0 = 3"
    by (simp add: spec_count_live_neighbors_def spec_get_def run_defs ex_born_def)
  ultimately show ?thesis using ex_born_reachable by simp
qed

text \<open>
  C4 (fails on the code). \<open>num_alive_neighbors\<close> is the sum of eight \<open>get_cell\<close> reads,
  and \<open>get_cell\<close> wraps a negative index around, so the neighbours of a cell in row 0
  or column 0 include cells of the last row or column instead of counting as dead. In
  the 2 by 2 game constructed with every cell alive, the count at \<open>(0, 0)\<close> is 8, where
  the count with every position outside the grid dead is 3.
\<close>

theorem num_alive_neighbors_wraps:
  "reachable 2 2 ex_all_alive \<and> num_alive_neighbors ex_all_alive 0 0 = 8 \<and>
   spec_count_live_neighbors ex_all_alive 0 0 = 3"
proof -
  have "num_alive_neighbors ex_all_alive 0 0 = 8"
    by (simp add: run_defs ex_all_alive_def)
  moreover have "spec_count_live_neighbors ex_all_alive 0 0 = 3"
    by (simp add: spec_count_live_neighbors_def spec_get_def run_defs ex_all_alive_def)
  ultimately show ?thesis using ex_all_alive_reachable by simp
qed

text \<open>
  C5. When every cell of the active grid of a well-formed state is dead,
  \<open>update_generation\<close> completes in a well-formed state of the same dimensions with the
  active index swapped, and the new active grid is the all-dead grid of these dimensions.
\<close>

theorem all_dead_fixed_point:
  assumes "wf_game s" "displays s []"
  shows "\<exists>s'. update_generation s = Inr s' \<and> wf_game s' \<and>
           active_grid s' = inactive_grid s \<and>
           num_rows s' = num_rows s \<and> num_cols s' = num_cols s \<and>
           grids s' ! nat (active_grid s')
             = replicate (nat (num_rows s)) (replicate (nat (num_cols s)) 0) \<and>
           displays s' []"
proof -
  from update_generation_cells[OF assms(1)]
  obtain s' where run: "update_generation s = Inr s'" and w': "wf_game s'"
    and a': "active_grid s' = inactive_grid s"
    and d: "num_rows s' = num_rows s" "num_cols s' = num_cols s"
    and cells: "\<forall>r c. 0 \<le> r \<and> r < num_rows s \<and> 0 \<le> c \<and> c < num_cols s \<longrightarrow>
              (if r < num_rows s - 1 \<and> c < num_cols s - 1
               then check_cell_neighbors s r c = Inr (get_cell s' r c)
               else get_cell s' r c = 0)"
    by blast
  have disp: "displays s' []"
  proof (rule displaysI)
    fix r c assume rc: "0 \<le> r" "r < num_rows s'" "0 \<le> c" "c < num_cols s'"
    then have rc': "0 \<le> r" "r < num_rows s" "0 \<le> c" "c < num_cols s" using d by auto
    have "check_cell_neighbors s r c = Inr 0"
      unfolding check_cell_neighbors_value[OF assms(1) rc']
      by (simp add: num_alive_neighbors_def dead_everywhere[OF assms])
    then have "get_cell s' r c = 0"
      using cells[rule_format, of r c] rc' by (auto split: if_splits)
    then show "get_cell s' r c = (if (r, c) \<in> set [] then 1 else 0)" by simp
  qed
  have "grids s' ! nat (active_grid s')
      = replicate (nat (num_rows s)) (replicate (nat (num_cols s)) 0)"
    using displays_empty_zero_grid[OF w' disp] d by simp
  then show ?thesis using run w' a' d disp by blast
qed

theorem all_dead_fixed_point_witness:
  "wf_game ex_empty \<and> displays ex_empty [] \<and>
   (\<exists>s'. update_generation ex_empty = Inr s' \<and> wf_game s' \<and> active_grid s' = 0 \<and>
      num_rows s' = 2 \<and> num_cols s' = 3 \<and>
      grids s' ! 0 = [[0, 0, 0], [0, 0, 0]] \<and> displays s' [])"
proof -
  have w: "wf_game ex_empty" by (simp add: wf_game_def wf_grid_def ex_empty_def)
  have d: "displays ex_empty []" by (simp add: pattern_defs ex_empty_def)
  from all_dead_fixed_point[OF w d]
  obtain s' where run: "update_generation ex_empty = Inr s'" and w': "wf_game s'"
    and a': "active_grid s' = inactive_grid ex_empty"
    and dm: "num_rows s' = num_rows ex_empty" "num_cols s' = num_cols ex_empty"
    and g: "grids s' ! nat (active_grid s')
             = replicate (nat (num_rows ex_empty)) (replicate (nat (num_cols ex_empty)) 0)"
    and dd: "displays s' []"
    by blast
  have a0: "active_grid s' = 0" using a' by (simp add: inactive_grid_def ex_empty_def)
  have "grids s' ! 0 = [[0, 0, 0], [0, 0, 0]]"
    using g unfolding a0 by (simp add: ex_empty_def eval_nat_numeral)
  moreover have "num_rows s' = 2" "num_cols s' = 3" using dm by (simp_all add: ex_empty_def)
  ultimately show ?thesis using w d run w' a0 dd by blast
qed

text \<open>
  C6. Let the active grid of a well-formed state hold a blinker with centre \<open>(r, c)\<close>,
  vertical or horizontal, and nothing else, with the 3 by 3 block around the centre
  inside the rows below \<open>num_rows - 1\<close> and the columns below \<open>num_cols - 1\<close>
  (which holds when the three cells and all their neighbours are inside them). Then one
  \<open>update_generation\<close> yields the other phase, and a second one yields the original
  pattern again, in the grid that was active at the start and equal to it.
\<close>

theorem blinker_period_two:
  assumes "wf_game s" "1 \<le> r" "r + 2 < num_rows s" "1 \<le> c" "c + 2 < num_cols s"
    and "(p = blinker_v r c \<and> q = blinker_h r c) \<or> (p = blinker_h r c \<and> q = blinker_v r c)"
    and "displays s p"
  shows "\<exists>s1 s2. update_generation s = Inr s1 \<and>
           num_rows s1 = num_rows s \<and> num_cols s1 = num_cols s \<and> displays s1 q \<and>
           update_generation s1 = Inr s2 \<and>
           num_rows s2 = num_rows s \<and> num_cols s2 = num_cols s \<and> displays s2 p \<and>
           active_grid s2 = active_grid s \<and>
           grids s2 ! nat (active_grid s2) = grids s ! nat (active_grid s)"
proof -
  from blinker_step[OF assms]
  obtain s1 where run1: "update_generation s = Inr s1" and w1: "wf_game s1"
    and a1: "active_grid s1 = inactive_grid s"
    and d1: "num_rows s1 = num_rows s" "num_cols s1 = num_cols s" and q: "displays s1 q"
    by blast
  have swap: "(q = blinker_v r c \<and> p = blinker_h r c) \<or> (q = blinker_h r c \<and> p = blinker_v r c)"
    using assms(6) by auto
  from blinker_step[OF w1 _ _ _ _ swap q] assms(2-5) d1
  obtain s2 where run2: "update_generation s1 = Inr s2" and w2: "wf_game s2"
    and a2: "active_grid s2 = inactive_grid s1"
    and d2: "num_rows s2 = num_rows s" "num_cols s2 = num_cols s" and p: "displays s2 p"
    by auto
  have act: "active_grid s2 = active_grid s"
    using a1 a2 assms(1) by (auto simp: inactive_grid_def wf_game_def)
  have "grids s2 ! nat (active_grid s2) = grids s ! nat (active_grid s)"
    using assms(1) w2 d2 assms(7) p by (rule displays_same_grid)
  then show ?thesis using run1 d1 q run2 d2 p act by blast
qed

theorem blinker_period_two_witness:
  "wf_game ex_blinker \<and> (1 + 2 :: int) < num_rows ex_blinker \<and> (1 + 2 :: int) < num_cols ex_blinker \<and>
   displays ex_blinker (blinker_v 1 1) \<and>
   (\<exists>s1 s2. update_generation ex_blinker = Inr s1 \<and>
           num_rows s1 = num_rows ex_blinker \<and> num_cols s1 = num_cols ex_blinker \<and>
           displays s1 (blinker_h 1 1) \<and>
           update_generation s1 = Inr s2 \<and>
           num_rows s2 = num_rows ex_blinker \<and> num_cols s2 = num_cols ex_blinker \<and>
           displays s2 (blinker_v 1 1) \<and>
           active_grid s2 = 0 \<and>
           grids s2 ! 0 = [[0, 1, 0, 0], [0, 1, 0, 0], [0, 1, 0, 0], [0, 0, 0, 0]])"
proof -
  have w: "wf_game ex_blinker" by (simp add: wf_game_def wf_grid_def ex_blinker_def)
  have n: "(1 + 2 :: int) < num_rows ex_blinker" "(1 + 2 :: int) < num_cols ex_blinker"
    by (simp_all add: ex_blinker_def)
  have d: "displays ex_blinker (blinker_v 1 1)" by (simp add: pattern_defs ex_blinker_def)
  have "\<exists>s1 s2. update_generation ex_blinker = Inr s1 \<and>
           num_rows s1 = num_rows ex_blinker \<and> num_cols s1 = num_cols ex_blinker \<and>
           displays s1 (blinker_h 1 1) \<and>
           update_generation s1 = Inr s2 \<and>
           num_rows s2 = num_rows ex_blinker \<and> num_cols s2 = num_cols ex_blinker \<and>
           displays s2 (blinker_v 1 1) \<and>
           active_grid s2 = active_grid ex_blinker \<and>
           grids s2 ! nat (active_grid s2) = grids ex_blinker ! nat (active_grid ex_blinker)"
    using blinker_period_two[OF w _ n(1) _ n(2) _ d, of "blinker_h 1 1"] by simp
  then have "\<exists>s1 s2. update_generation ex_blinker = Inr s1 \<and>
           num_rows s1 = num_rows ex_blinker \<and> num_cols s1 = num_cols ex_blinker \<and>
           displays s1 (blinker_h 1 1) \<and>
           update_generation s1 = Inr s2 \<and>
           num_rows s2 = num_rows ex_blinker \<and> num_cols s2 = num_cols ex_blinker \<and>
           displays s2 (blinker_v 1 1) \<and>
           active_grid s2 = 0 \<and>
           grids s2 ! 0 = [[0, 1, 0, 0], [0, 1, 0, 0], [0, 1, 0, 0], [0, 0, 0, 0]]"
    by (auto simp: ex_blinker_def)
  then show ?thesis using w n d by simp
qed

text \<open>
  C7. When the active grid of a well-formed state holds exactly one live cell,
  \<open>update_generation\<close> completes in a well-formed state of the same dimensions with the
  active index swapped, and the new active grid is the all-dead grid of these dimensions.
  This holds wherever the cell lies, also in the last row or column, which the wrapped
  reads of row 0 and column 0 see.
\<close>

theorem lone_cell_dies:
  assumes "wf_game s" "0 \<le> a" "a < num_rows s" "0 \<le> b" "b < num_cols s"
    and "displays s [(a, b)]"
  shows "\<exists>s'. update_generation s = Inr s' \<and> wf_game s' \<and>
           active_grid s' = inactive_grid s \<and>
           num_rows s' = num_rows s \<and> num_cols s' = num_cols s \<and>
           grids s' ! nat (active_grid s')
             = replicate (nat (num_rows s)) (replicate (nat (num_cols s)) 0) \<and>
           displays s' []"
proof -
  from update_generation_cells[OF assms(1)]
  obtain s' where run: "update_generation s = Inr s'" and w': "wf_game s'"
    and a': "active_grid s' = inactive_grid s"
    and d: "num_rows s' = num_rows s" "num_cols s' = num_cols s"
    and cells: "\<forall>r c. 0 \<le> r \<and> r < num_rows s \<and> 0 \<le> c \<and> c < num_cols s \<longrightarrow>
              (if r < num_rows s - 1 \<and> c < num_cols s - 1
               then check_cell_neighbors s r c = Inr (get_cell s' r c)
               else get_cell s' r c = 0)"
    by blast
  have disp: "displays s' []"
  proof (rule displaysI)
    fix r c assume rc: "0 \<le> r" "r < num_rows s'" "0 \<le> c" "c < num_cols s'"
    then have rc': "0 \<le> r \<and> r < num_rows s \<and> 0 \<le> c \<and> c < num_cols s" using d by auto
    have "get_cell s' r c = 0"
    proof (cases "r < num_rows s - 1 \<and> c < num_cols s - 1")
      case True
      then have "check_cell_neighbors s r c = Inr 0"
        using rc' by (intro lone_cell_next[OF assms(1,6)]) auto
      then show ?thesis using cells[rule_format, OF rc'] True by simp
    next
      case False
      then show ?thesis using cells[rule_format, OF rc'] by (simp split: if_splits)
    qed
    then show "get_cell s' r c = (if (r, c) \<in> set [] then 1 else 0)" by simp
  qed
  have "grids s' ! nat (active_grid s')
      = replicate (nat (num_rows s)) (replicate (nat (num_cols s)) 0)"
    using displays_empty_zero_grid[OF w' disp] d by simp
  then show ?thesis using run w' a' d disp by blast
qed

theorem lone_cell_dies_witness:
  "wf_game ex_lone \<and> (1::int) < num_rows ex_lone \<and> (1::int) < num_cols ex_lone \<and>
   displays ex_lone [(1, 1)] \<and>
   (\<exists>s'. update_generation ex_lone = Inr s' \<and> wf_game s' \<and> active_grid s' = 1 \<and>
      num_rows s' = 3 \<and> num_cols s' = 3 \<and>
      grids s' ! 1 = [[0, 0, 0], [0, 0, 0], [0, 0, 0]] \<and> displays s' [])"
proof -
  have w: "wf_game ex_lone" by (simp add: wf_game_def wf_grid_def ex_lone_def)
  have n: "(1::int) < num_rows ex_lone" "(1::int) < num_cols ex_lone" by (simp_all add: ex_lone_def)
  have d: "displays ex_lone [(1, 1)]" by (simp add: pattern_defs ex_lone_def)
  from lone_cell_dies[OF w _ n(1) _ n(2) d]
  obtain s' where run: "update_generation ex_lone = Inr s'" and w': "wf_game s'"
    and a': "active_grid s' = inactive_grid ex_lone"
    and dm: "num_rows s' = num_rows ex_lone" "num_cols s' = num_cols ex_lone"
    and g: "grids s' ! nat (active_grid s')
             = replicate (nat (num_rows ex_lone)) (replicate (nat (num_cols ex_lone)) 0)"
    and dd: "displays s' []"
    by auto
  have a1: "active_grid s' = 1" using a' by (simp add: inactive_grid_def ex_lone_def)
  have "grids s' ! 1 = [[0, 0, 0], [0, 0, 0], [0, 0, 0]]"
    using g unfolding a1 by (simp add: ex_lone_def eval_nat_numeral)
  moreover have "num_rows s' = 3" "num_cols s' = 3" using dm by (simp_all add: ex_lone_def)
  ultimately show ?thesis using w n d run w' a1 dd by blast
qed

text \<open>
  C8. From every reachable state the key \<open>r\<close> is handled without an exception. After it
  the active index is 0; grid 0 holds the random draws, cell \<open>(i, j)\<close> the draw number
  \<open>i * num_cols + j\<close> of the generator at entry, and the generator has advanced by
  \<open>num_rows * num_cols\<close> draws; grid 1, the inactive grid, is the all-dead grid of the
  game's dimensions; the state is well formed and the dimensions and the two flags are
  unchanged.
\<close>

theorem randomize:
  assumes "reachable n_rows n_cols s"
  shows "\<exists>s'. handle_events [KEYDOWN ''r''] s = Inr s' \<and>
           active_grid s' = 0 \<and> inactive_grid s' = 1 \<and>
           wf_grid n_rows n_cols (grids s' ! 0) \<and>
           wf_grid n_rows n_cols (grids s' ! 1) \<and>
           (\<forall>row\<in>set (grids s' ! 1). \<forall>v\<in>set row. v = 0) \<and>
           wf_game s' \<and> num_rows s' = n_rows \<and> num_cols s' = n_cols \<and>
           paused s' = paused s \<and> game_over s' = game_over s \<and>
           (\<forall>i<nat n_rows. \<forall>j<nat n_cols.
              grids s' ! 0 ! i ! j = (if rng s (i * nat n_cols + j) then 1 else 0)) \<and>
           rng s' = (\<lambda>k. rng s (k + nat n_rows * nat n_cols)) \<and>
           grids s' ! 1 = replicate (nat n_rows) (replicate (nat n_cols) 0)"
proof -
  have w: "wf_game s" and d: "num_rows s = n_rows" "num_cols s = n_cols"
    using reachable_wf[OF assms] by auto
  let ?s0 = "s\<lparr>active_grid := 0\<rparr>"
  have w0: "wf_game ?s0" using w by (simp add: wf_game_def)
  from set_grid_random[OF w0, of 0]
  obtain s1 where run1: "set_grid None 0 ?s0 = Inr s1" and w1: "wf_game s1"
    and m1: "modifies 0 ?s0 s1"
    and r1: "rng s1 = (\<lambda>k. rng s (k + nat n_rows * nat n_cols))"
    and cells1: "\<forall>i<nat n_rows. \<forall>j<nat n_cols.
               grids s1 ! 0 ! i ! j = (if rng s (i * nat n_cols + j) then 1 else 0)"
    using d by auto
  have f1: "active_grid s1 = 0" "num_rows s1 = n_rows" "num_cols s1 = n_cols"
    "paused s1 = paused s" "game_over s1 = game_over s"
    using modifies_fields[OF m1] d by auto
  have b1: "inactive_grid s1 = 1" using f1 by (simp add: inactive_grid_def)
  from set_grid_run[OF w1, of 1 "Some 0"]
  obtain s2 where run2: "set_grid (Some 0) 1 s1 = Inr s2" and w2: "wf_game s2"
    and m2: "modifies 1 s1 s2" and r2: "rng s2 = rng s1"
    and cells2: "\<forall>i<nat (num_rows s1). \<forall>j<nat (num_cols s1). grids s2 ! nat 1 ! i ! j = 0"
    by auto
  have f2: "active_grid s2 = 0" "num_rows s2 = n_rows" "num_cols s2 = n_cols"
    "paused s2 = paused s" "game_over s2 = game_over s"
    using modifies_fields[OF m2] f1 by auto
  have g0same: "grids s2 ! 0 = grids s1 ! 0" using m2 by (simp add: modifies_def)
  obtain fs where dr: "draw_grid s2 = Inr fs" using draw_grid_total[OF w2] by blast
  have g0: "wf_grid n_rows n_cols (grids s2 ! 0)" using wf_grid_nth[OF w2, of 0] f2 by simp
  have g1: "wf_grid n_rows n_cols (grids s2 ! 1)" using wf_grid_nth[OF w2, of 1] f2 by simp
  have c2: "\<forall>i<nat n_rows. \<forall>j<nat n_cols. grids s2 ! 1 ! i ! j = 0"
    using cells2 f1 by simp
  have dead: "\<forall>row\<in>set (grids s2 ! 1). \<forall>v\<in>set row. v = 0"
    using g1 c2 by (rule wf_grid_cells_all)
  have zero: "grids s2 ! 1 = replicate (nat n_rows) (replicate (nat n_cols) 0)"
    using g1 c2 by (rule wf_grid_zero)
  have fill: "\<forall>i<nat n_rows. \<forall>j<nat n_cols.
              grids s2 ! 0 ! i ! j = (if rng s (i * nat n_cols + j) then 1 else 0)"
    using cells1 g0same by simp
  have run: "handle_events [KEYDOWN ''r''] s = Inr s2"
    using run1 run2 dr b1 by (simp add: Let_def)
  have i2: "inactive_grid s2 = 1" using f2 by (simp add: inactive_grid_def)
  have rr: "rng s2 = (\<lambda>k. rng s (k + nat n_rows * nat n_cols))" using r1 r2 by simp
  show ?thesis
    using run f2 i2 g0 g1 dead w2 fill rr zero by blast
qed

theorem randomize_witness:
  "reachable 2 2 ex_fresh \<and> grids ex_fresh ! 0 = [[1, 1], [1, 1]] \<and>
   (\<exists>s'. handle_events [KEYDOWN ''r''] ex_fresh = Inr s' \<and> active_grid s' = 0 \<and>
      grids s' ! 0 ! 0 ! 0 = 0 \<and> grids s' ! 0 ! 0 ! 1 = 1 \<and>
      grids s' ! 0 ! 1 ! 0 = 1 \<and> grids s' ! 0 ! 1 ! 1 = 0 \<and>
      grids s' ! 1 = [[0, 0], [0, 0]])"
proof -
  from randomize[OF ex_fresh_reachable]
  obtain s' where run: "handle_events [KEYDOWN ''r''] ex_fresh = Inr s'"
    and a: "active_grid s' = 0"
    and fill: "\<forall>i<nat 2. \<forall>j<nat 2.
              grids s' ! 0 ! i ! j = (if rng ex_fresh (i * nat 2 + j) then 1 else 0)"
    and zero: "grids s' ! 1 = replicate (nat 2) (replicate (nat 2) 0)"
    by blast
  have "grids s' ! 0 ! 0 ! 0 = 0" using fill[rule_format, of 0 0] by (simp add: ex_fresh_def)
  moreover have "grids s' ! 0 ! 0 ! 1 = 1" using fill[rule_format, of 0 1] by (simp add: ex_fresh_def)
  moreover have "grids s' ! 0 ! 1 ! 0 = 1" using fill[rule_format, of 1 0] by (simp add: ex_fresh_def)
  moreover have "grids s' ! 0 ! 1 ! 1 = 0" using fill[rule_format, of 1 1] by (simp add: ex_fresh_def)
  moreover have "grids s' ! 1 = [[0, 0], [0, 0]]" using zero by (simp add: eval_nat_numeral)
  moreover have "grids ex_fresh ! 0 = [[1, 1], [1, 1]]" by (simp add: ex_fresh_def)
  ultimately show ?thesis using run a ex_fresh_reachable by blast
qed

text \<open>
  C9. From every reachable state \<open>update_generation\<close> completes and leaves the grid that
  was active at entry as it was; the state after it is the state at entry with the
  inactive grid replaced and the active index swapped, every other field unchanged. The
  grids after it depend on the state at entry only through the dimensions, the active
  index and the active grid.
\<close>

theorem update_generation_frame:
  assumes "reachable n_rows n_cols s"
  shows "\<exists>s'. update_generation s = Inr s' \<and>
           grids s' ! nat (active_grid s) = grids s ! nat (active_grid s) \<and>
           s' = s\<lparr>grids := (grids s)[nat (inactive_grid s) := grids s' ! nat (inactive_grid s)],
                  active_grid := inactive_grid s\<rparr> \<and>
           (\<forall>t. wf_game t \<and> active_grid t = active_grid s \<and>
                num_rows t = num_rows s \<and> num_cols t = num_cols s \<and>
                grids t ! nat (active_grid s) = grids s ! nat (active_grid s) \<longrightarrow>
                (\<exists>t'. update_generation t = Inr t' \<and> grids t' = grids s'))"
proof -
  have w: "wf_game s" using reachable_wf[OF assms] by simp
  let ?a = "nat (active_grid s)" and ?b = "nat (inactive_grid s)"
  have ab: "?a < 2" "?b < 2" "?a \<noteq> ?b"
    using w inactive_grid_binary[of s] inactive_neq_active[OF w] by (auto simp: wf_game_def)
  from update_generation_run[OF w]
  obtain s' where run: "update_generation s = Inr s'" and w': "wf_game s'"
    and eq: "s' = s\<lparr>grids := grids s', active_grid := inactive_grid s\<rparr>"
    and act: "grids s' ! ?a = grids s ! ?a"
    by blast
  have "grids s' = (grids s)[?b := grids s' ! ?b]"
    using w w' ab act by (intro two_grids_update[where a = ?a]) (auto simp: wf_game_def)
  then have eq': "s' = s\<lparr>grids := (grids s)[?b := grids s' ! ?b], active_grid := inactive_grid s\<rparr>"
    using eq by simp
  have "\<exists>t'. update_generation t = Inr t' \<and> grids t' = grids s'"
    if t: "wf_game t \<and> active_grid t = active_grid s \<and>
                num_rows t = num_rows s \<and> num_cols t = num_cols s \<and>
                grids t ! nat (active_grid s) = grids s ! nat (active_grid s)" for t
  proof -
    from t update_generation_run[of t] obtain t' where rt: "update_generation t = Inr t'" by blast
    have "grids t' = grids s'"
      using w t run rt by (intro update_generation_deterministic_in_active[of s t]) auto
    then show ?thesis using rt by blast
  qed
  then show ?thesis using run act eq' by blast
qed

theorem update_generation_frame_witness:
  "reachable 2 2 ex_all_alive \<and>
   (\<exists>s'. update_generation ex_all_alive = Inr s' \<and> grids s' ! 0 = [[1, 1], [1, 1]] \<and>
      active_grid s' = 1 \<and> num_rows s' = 2 \<and> num_cols s' = 2 \<and> \<not> paused s' \<and> \<not> game_over s')"
proof -
  from update_generation_frame[OF ex_all_alive_reachable]
  obtain s' where run: "update_generation ex_all_alive = Inr s'"
    and act: "grids s' ! nat (active_grid ex_all_alive) = grids ex_all_alive ! nat (active_grid ex_all_alive)"
    and eq: "s' = ex_all_alive\<lparr>grids := (grids ex_all_alive)[nat (inactive_grid ex_all_alive)
                 := grids s' ! nat (inactive_grid ex_all_alive)],
               active_grid := inactive_grid ex_all_alive\<rparr>"
    by blast
  have "grids s' ! 0 = [[1, 1], [1, 1]]"
    using act by (simp add: ex_all_alive_def)
  moreover have "active_grid s' = 1 \<and> num_rows s' = 2 \<and> num_cols s' = 2 \<and> \<not> paused s' \<and> \<not> game_over s'"
    by (subst eq, simp add: ex_all_alive_def inactive_grid_def)+
  ultimately show ?thesis using run ex_all_alive_reachable by blast
qed

text \<open>
  C10. In every state reachable from the constructor by \<open>set_grid\<close>, \<open>update_generation\<close>
  and \<open>handle_events\<close>, the dimensions are those of the construction, there are exactly
  two grids, each has \<open>num_rows\<close> rows of \<open>num_cols\<close> cells, and every cell is 0 or 1.
\<close>

theorem reachable_invariant:
  assumes "reachable n_rows n_cols s"
  shows "num_rows s = n_rows \<and> num_cols s = n_cols \<and> length (grids s) = 2 \<and>
         (\<forall>g\<in>set (grids s). length g = nat n_rows \<and>
            (\<forall>row\<in>set g. length row = nat n_cols \<and> (\<forall>v\<in>set row. v = 0 \<or> v = 1)))"
  using reachable_wf[OF assms] by (auto simp: wf_game_def wf_grid_def)

theorem reachable_invariant_witness:
  "reachable 2 2 ex_all_alive \<and> num_rows ex_all_alive = 2 \<and> num_cols ex_all_alive = 2 \<and>
   length (grids ex_all_alive) = 2 \<and>
   list_all (\<lambda>g. length g = 2 \<and> list_all (\<lambda>row. length row = 2 \<and> list_all (\<lambda>v. v = 0 \<or> v = 1) row) g)
     (grids ex_all_alive)"
  using ex_all_alive_reachable reachable_invariant[OF ex_all_alive_reachable]
  by (simp add: list_all_iff)

end
